theory Spec2Isabelle
  imports Main "HOL-Library.Word" "HOL-Library.Sublist"
begin

section \<open>Data model (internal/hosts/model.go)\<close>

text \<open>
  Go strings are modelled as lists of runes (Unicode code points, as natural numbers): the
  regular expressions, \<open>strings.TrimSpace\<close> and \<open>strings.Fields\<close> of the source all work rune
  by rune on the decoded text.  \<open>len(s)\<close> of the source counts bytes, so it is modelled by the
  length of the UTF-8 encoding, \<open>blen\<close>.  Go's \<open>int\<close> is the 64-bit machine integer of the
  targets the Makefile builds (amd64, arm64): \<open>+\<close> wraps around, comparisons are signed.
\<close>

type_synonym rune = nat
type_synonym gostring = "rune list"
type_synonym goint = "64 word"

definition asc :: "string \<Rightarrow> gostring" where
  "asc s = map of_char s"

definition rune_len :: "rune \<Rightarrow> nat" where
  "rune_len r = (if r < 128 then 1 else if r < 2048 then 2 else if r < 65536 then 3 else 4)"

definition blen :: "gostring \<Rightarrow> nat" where
  "blen s = sum_list (map rune_len s)"

record Entry =
  ID :: goint
  IP :: gostring
  Names :: "gostring list"
  Comment :: gostring
  Disabled :: bool
  Raw :: gostring

record HostsFile =
  Entries :: "Entry list"
  Path :: gostring

text \<open>\<open>Entry.IsValid\<close>: an IP and at least one name.\<close>

definition IsValid :: "Entry \<Rightarrow> bool" where
  "IsValid e = (IP e \<noteq> [] \<and> length (Names e) > 0)"

text \<open>
  \<open>HostsFile.AddEntry\<close>.  The loop \<open>for _, e := range h.Entries\<close> starts from \<open>maxID := 0\<close>
  and keeps the larger of \<open>maxID\<close> and \<open>e.ID\<close> under the signed order.
\<close>

fun maxID_loop :: "Entry list \<Rightarrow> goint \<Rightarrow> goint" where
  "maxID_loop [] maxID = maxID"
| "maxID_loop (e # es) maxID = maxID_loop es (if maxID <s ID e then ID e else maxID)"

definition AddEntry :: "HostsFile \<Rightarrow> Entry \<Rightarrow> HostsFile" where
  "AddEntry h entry =
     (let entry' = (if length (Entries h) = 0 then entry\<lparr>ID := 1\<rparr>
                    else entry\<lparr>ID := maxID_loop (Entries h) 0 + 1\<rparr>)
      in h\<lparr>Entries := Entries h @ [entry']\<rparr>)"


text \<open>
  \<open>Entry.String\<close> and \<open>Parser.Serialize\<close> (internal/hosts/parser.go): the canonical text.
  Rune 9 is the tab, 10 the newline, 32 the space and 35 the hash sign.
\<close>

definition String :: "Entry \<Rightarrow> gostring" where
  "String e =
     (let line = IP e @ concat (map (\<lambda>name. [9] @ name) (Names e));
          line = (if Comment e \<noteq> [] then line @ [9, 35, 32] @ Comment e else line);
          line = (if Disabled e then [35, 32] @ line else line)
      in line)"

text \<open>\<open>strings.Join\<close>.\<close>

fun Join :: "gostring list \<Rightarrow> gostring \<Rightarrow> gostring" where
  "Join [] sep = []"
| "Join [x] sep = x"
| "Join (x # y # ys) sep = x @ sep @ Join (y # ys) sep"

definition Serialize :: "HostsFile \<Rightarrow> gostring" where
  "Serialize hostsFile = Join (map String (Entries hostsFile)) [10] @ [10]"


section \<open>Regular expressions (package regexp)\<close>

text \<open>
  The three patterns of the source are \<open>regexp\<close> values.  A pattern is a term of \<open>regex\<close>;
  \<open>ms r b s\<close> lists every way in which \<open>r\<close> matches a prefix of \<open>s\<close>, as the captured groups
  and the rest of the text, in the order in which a backtracking matcher finds them: greedy
  operators try the longer match first, lazy ones the shorter, the left branch of an
  alternation comes before the right one.  The first element is the match \<open>regexp\<close> reports
  (leftmost-first).  \<open>b\<close> tells whether \<open>s\<close> starts at the beginning of the text, for \<open>^\<close>.
\<close>

datatype regex =
    Class "rune \<Rightarrow> bool"
  | Eps
  | Bol
  | Eol
  | Seq regex regex
  | Alt regex regex
  | Opt regex
  | Star regex
  | LazyStar regex
  | Group nat regex

type_synonym caps = "(nat \<times> gostring) list"

function ms :: "regex \<Rightarrow> bool \<Rightarrow> gostring \<Rightarrow> (caps \<times> gostring) list" where
  "ms (Class p) b s = (case s of [] \<Rightarrow> [] | c # cs \<Rightarrow> if p c then [([], cs)] else [])"
| "ms Eps b s = [([], s)]"
| "ms Bol b s = (if b then [([], s)] else [])"
| "ms Eol b s = (if s = [] then [([], s)] else [])"
| "ms (Seq r1 r2) b s =
     concat (map (\<lambda>m1. map (\<lambda>m2. (fst m2 @ fst m1, snd m2))
                              (ms r2 (b \<and> length (snd m1) = length s) (snd m1)))
                 (ms r1 b s))"
| "ms (Alt r1 r2) b s = ms r1 b s @ ms r2 b s"
| "ms (Opt r) b s = ms r b s @ [([], s)]"
| "ms (Star r) b s =
     concat (map (\<lambda>m1. if length (snd m1) < length s
                        then map (\<lambda>m2. (fst m2 @ fst m1, snd m2)) (ms (Star r) False (snd m1))
                        else [])
                 (ms r b s)) @ [([], s)]"
| "ms (LazyStar r) b s =
     ([], s) # concat (map (\<lambda>m1. if length (snd m1) < length s
                        then map (\<lambda>m2. (fst m2 @ fst m1, snd m2)) (ms (LazyStar r) False (snd m1))
                        else [])
                 (ms r b s))"
| "ms (Group n r) b s =
     map (\<lambda>m. ((n, take (length s - length (snd m)) s) # fst m, snd m)) (ms r b s)"
  by pat_completeness auto
termination
  by (relation "inv_image (less_than <*lex*> less_than) (\<lambda>(r, b, s). (size r, length s))") auto

text \<open>
  The equations of the two stars unfold without end under the simplifier; they are used where
  a text is evaluated.
\<close>

declare ms.simps(8,9) [simp del]

text \<open>
  The leftmost match: the first match at the first position that has one.  The result is the
  matched text and the groups.
\<close>

fun find_from :: "regex \<Rightarrow> bool \<Rightarrow> gostring \<Rightarrow> (gostring \<times> caps) option" where
  "find_from r b [] = (case ms r b [] of [] \<Rightarrow> None | m # _ \<Rightarrow> Some ([], fst m))"
| "find_from r b (c # cs) =
     (case ms r b (c # cs) of
        [] \<Rightarrow> find_from r False cs
      | m # _ \<Rightarrow> Some (take (length (c # cs) - length (snd m)) (c # cs), fst m))"

text \<open>
  \<open>Regexp.FindStringSubmatch\<close>: \<open>nil\<close> without a match, otherwise the matched text followed by
  the text of each group, empty for a group that took no part in the match.
\<close>

definition FindStringSubmatch :: "regex \<Rightarrow> nat \<Rightarrow> gostring \<Rightarrow> gostring list option" where
  "FindStringSubmatch r ngroups s =
     (case find_from r True s of
        None \<Rightarrow> None
      | Some (whole, cs) \<Rightarrow>
          Some (whole # map (\<lambda>i. case map_of cs i of None \<Rightarrow> [] | Some t \<Rightarrow> t) [1..<Suc ngroups]))"

definition MatchString :: "regex \<Rightarrow> gostring \<Rightarrow> bool" where
  "MatchString r s = (find_from r True s \<noteq> None)"


text \<open>\<open>x+\<close>, \<open>x+?\<close> and \<open>x{0,n}\<close>.\<close>

definition Plus :: "regex \<Rightarrow> regex" where
  "Plus r = Seq r (Star r)"

definition LazyPlus :: "regex \<Rightarrow> regex" where
  "LazyPlus r = Seq r (LazyStar r)"

fun UpTo :: "regex \<Rightarrow> nat \<Rightarrow> regex" where
  "UpTo r 0 = Eps"
| "UpTo r (Suc n) = Opt (Seq r (UpTo r n))"

text \<open>The runes that some class of a pattern accepts.\<close>

fun alpha :: "regex \<Rightarrow> rune \<Rightarrow> bool" where
  "alpha (Class p) c = p c"
| "alpha Eps c = False"
| "alpha Bol c = False"
| "alpha Eol c = False"
| "alpha (Seq r1 r2) c = (alpha r1 c \<or> alpha r2 c)"
| "alpha (Alt r1 r2) c = (alpha r1 c \<or> alpha r2 c)"
| "alpha (Opt r) c = alpha r c"
| "alpha (Star r) c = alpha r c"
| "alpha (LazyStar r) c = alpha r c"
| "alpha (Group n r) c = alpha r c"

text \<open>
  The classes: \<open>\s\<close> is \<open>[\t\n\f\r ]\<close>, \<open>\S\<close> its complement, \<open>.\<close> every rune but the newline.
\<close>

definition is_s :: "rune \<Rightarrow> bool" where
  "is_s c = (c = 9 \<or> c = 10 \<or> c = 12 \<or> c = 13 \<or> c = 32)"

definition re_s :: regex where
  "re_s = Class is_s"

definition re_S :: regex where
  "re_S = Class (\<lambda>c. \<not> is_s c)"

definition re_dot :: regex where
  "re_dot = Class (\<lambda>c. c \<noteq> 10)"

definition re_chr :: "rune \<Rightarrow> regex" where
  "re_chr x = Class (\<lambda>c. c = x)"

definition re_range :: "rune \<Rightarrow> rune \<Rightarrow> regex" where
  "re_range lo hi = Class (\<lambda>c. lo \<le> c \<and> c \<le> hi)"

definition alnum :: "rune \<Rightarrow> bool" where
  "alnum c = ((97 \<le> c \<and> c \<le> 122) \<or> (65 \<le> c \<and> c \<le> 90) \<or> (48 \<le> c \<and> c \<le> 57))"

definition re_alnum :: regex where
  "re_alnum = Class alnum"

definition re_alnum_hyphen :: regex where
  "re_alnum_hyphen = Class (\<lambda>c. alnum c \<or> c = 45)"

text \<open>
  \<open>entryRegex\<close> is
  \<^verbatim>\<open>^(\s*#\s*)?(\S+)\s+(.+?)(?:\s*#\s*(.*))?$\<close>.
\<close>

definition entryRegex :: regex where
  "entryRegex =
     Seq Bol
    (Seq (Opt (Group 1 (Seq (Star re_s) (Seq (re_chr 35) (Star re_s)))))
    (Seq (Group 2 (Plus re_S))
    (Seq (Plus re_s)
    (Seq (Group 3 (LazyPlus re_dot))
    (Seq (Opt (Seq (Star re_s) (Seq (re_chr 35) (Seq (Star re_s) (Group 4 (Star re_dot))))))
         Eol)))))"

text \<open>
  \<open>hostnameRegex\<close> is
  \<^verbatim>\<open>^[a-zA-Z0-9]([a-zA-Z0-9\-]{0,61}[a-zA-Z0-9])?(\.[a-zA-Z0-9]([a-zA-Z0-9\-]{0,61}[a-zA-Z0-9])?)*$\<close>.
\<close>

definition hostnameRegex :: regex where
  "hostnameRegex =
     Seq Bol
    (Seq re_alnum
    (Seq (Opt (Group 1 (Seq (UpTo re_alnum_hyphen 61) re_alnum)))
    (Seq (Star (Group 2 (Seq (re_chr 46) (Seq re_alnum
                (Opt (Group 3 (Seq (UpTo re_alnum_hyphen 61) re_alnum)))))))
         Eol)))"

text \<open>
  \<open>ipv4Regex\<close> (pkg/validation.go) is
  \<^verbatim>\<open>^((25[0-5]|2[0-4][0-9]|[01]?[0-9][0-9]?)\.){3}(25[0-5]|2[0-4][0-9]|[01]?[0-9][0-9]?)$\<close>.
\<close>

definition re_octet :: "nat \<Rightarrow> regex" where
  "re_octet n = Group n
     (Alt (Seq (re_chr 50) (Seq (re_chr 53) (re_range 48 53)))
     (Alt (Seq (re_chr 50) (Seq (re_range 48 52) (re_range 48 57)))
          (Seq (Opt (re_range 48 49)) (Seq (re_range 48 57) (Opt (re_range 48 57))))))"

definition ipv4Regex :: regex where
  "ipv4Regex =
     Seq Bol
    (Seq (Seq (Group 1 (Seq (re_octet 2) (re_chr 46)))
         (Seq (Group 1 (Seq (re_octet 2) (re_chr 46)))
              (Group 1 (Seq (re_octet 2) (re_chr 46)))))
    (Seq (re_octet 3)
         Eol))"


section \<open>Library functions of package strings\<close>

text \<open>\<open>unicode.IsSpace\<close>.\<close>

definition isSpace :: "rune \<Rightarrow> bool" where
  "isSpace c = (c = 9 \<or> c = 10 \<or> c = 11 \<or> c = 12 \<or> c = 13 \<or> c = 32 \<or> c = 133 \<or> c = 160
      \<or> c = 5760 \<or> (8192 \<le> c \<and> c \<le> 8202) \<or> c = 8232 \<or> c = 8233 \<or> c = 8239
      \<or> c = 8287 \<or> c = 12288)"

definition TrimSpace :: "gostring \<Rightarrow> gostring" where
  "TrimSpace s = rev (dropWhile isSpace (rev (dropWhile isSpace s)))"

fun fields_from :: "gostring \<Rightarrow> gostring \<Rightarrow> gostring list" where
  "fields_from cur [] = (if cur = [] then [] else [cur])"
| "fields_from cur (c # cs) =
     (if isSpace c then (if cur = [] then fields_from [] cs else cur # fields_from [] cs)
      else fields_from (cur @ [c]) cs)"

definition Fields :: "gostring \<Rightarrow> gostring list" where
  "Fields s = fields_from [] s"

definition HasPrefix :: "gostring \<Rightarrow> gostring \<Rightarrow> bool" where
  "HasPrefix s pre = (take (length pre) s = pre)"

fun Contains :: "gostring \<Rightarrow> gostring \<Rightarrow> bool" where
  "Contains [] substr = (substr = [])"
| "Contains (c # cs) substr = (HasPrefix (c # cs) substr \<or> Contains cs substr)"

text \<open>
  \<open>strings.Split\<close> with a non-empty separator (the source only splits at ".", ":" and "::"):
  the text is cut at each occurrence of the separator, found from left to right.
\<close>

function split_from :: "gostring \<Rightarrow> gostring \<Rightarrow> gostring \<Rightarrow> gostring list" where
  "split_from sep cur [] = [cur]"
| "split_from sep cur (c # cs) =
     (if sep \<noteq> [] \<and> HasPrefix (c # cs) sep
      then cur # split_from sep [] (drop (length sep) (c # cs))
      else split_from sep (cur @ [c]) cs)"
  by pat_completeness auto
termination
  by (relation "measure (\<lambda>(sep, cur, s). length s)") auto

definition Split :: "gostring \<Rightarrow> gostring \<Rightarrow> gostring list" where
  "Split s sep = split_from sep [] s"


section \<open>The parser (internal/hosts/parser.go)\<close>

datatype ParseError = ParseError goint gostring gostring

definition isValidIPv6Part :: "gostring \<Rightarrow> bool" where
  "isValidIPv6Part part =
     (if blen part = 0 \<or> blen part > 4 then False
      else list_all (\<lambda>char. (48 \<le> char \<and> char \<le> 57) \<or> (97 \<le> char \<and> char \<le> 102)
                              \<or> (65 \<le> char \<and> char \<le> 70)) part)"

definition isValidIPv6 :: "gostring \<Rightarrow> bool" where
  "isValidIPv6 ip =
     (if Contains ip [58, 58] then
        (let parts = Split ip [58, 58] in
         if length parts \<noteq> 2 then False
         else
           let leftParts = (if parts ! 0 \<noteq> [] then Split (parts ! 0) [58] else []);
               rightParts = (if parts ! 1 \<noteq> [] then Split (parts ! 1) [58] else []);
               totalParts = length leftParts + length rightParts in
           if totalParts \<ge> 8 then False
           else list_all isValidIPv6Part (leftParts @ rightParts))
      else
        (let parts = Split ip [58] in
         if length parts \<noteq> 8 then False
         else list_all isValidIPv6Part parts))"

text \<open>
  The body of the loop over the four parts in \<open>isValidIP\<close>: length 1 to 3, decimal digits
  only, value at most 255, no leading zero on a part of more than one digit.
\<close>

fun octet_num :: "gostring \<Rightarrow> nat \<Rightarrow> nat option" where
  "octet_num [] num = Some num"
| "octet_num (char # cs) num =
     (if char < 48 \<or> char > 57 then None else octet_num cs (num * 10 + (char - 48)))"

definition valid_octet :: "gostring \<Rightarrow> bool" where
  "valid_octet part =
     (if blen part = 0 \<or> blen part > 3 then False
      else (case octet_num part 0 of
              None \<Rightarrow> False
            | Some num \<Rightarrow>
                if num > 255 then False
                else if blen part > 1 \<and> hd part = 48 then False
                else True))"

definition isValidIP :: "gostring \<Rightarrow> bool" where
  "isValidIP ip =
     (let parts = Split ip [46] in
      if length parts \<noteq> 4 then isValidIPv6 ip
      else list_all valid_octet parts)"

definition isValidHostname :: "gostring \<Rightarrow> bool" where
  "isValidHostname hostname =
     (if blen hostname = 0 \<or> blen hostname > 253 then False
      else if hostname = asc ''localhost'' then True
      else MatchString hostnameRegex hostname)"

definition isDisabledEntry :: "gostring \<Rightarrow> bool" where
  "isDisabledEntry line =
     (case FindStringSubmatch entryRegex 4 line of
        None \<Rightarrow> False
      | Some matches \<Rightarrow> length matches \<ge> 4 \<and> TrimSpace (matches ! 1) \<noteq> [])"

datatype line_result = LineFailed ParseError | NoEntry | Parsed Entry

definition parseLine :: "gostring \<Rightarrow> goint \<Rightarrow> goint \<Rightarrow> line_result" where
  "parseLine line lineNum entryID =
     (let trimmed = TrimSpace line in
      if trimmed = [] then NoEntry
      else
        (case FindStringSubmatch entryRegex 4 line of
           None \<Rightarrow> LineFailed (ParseError lineNum line (asc ''invalid line format''))
         | Some matches \<Rightarrow>
             if length matches < 4
             then LineFailed (ParseError lineNum line (asc ''invalid line format''))
             else
               let disabled = (TrimSpace (matches ! 1) \<noteq> []);
                   ip = TrimSpace (matches ! 2);
                   hostnames = Fields (TrimSpace (matches ! 3));
                   comment = (if length matches > 4 then TrimSpace (matches ! 4) else []) in
               if \<not> isValidIP ip
               then LineFailed (ParseError lineNum line (asc ''invalid IP address: '' @ ip))
               else
                 (case filter (\<lambda>hostname. \<not> isValidHostname hostname) hostnames of
                    hostname # _ \<Rightarrow>
                      LineFailed (ParseError lineNum line (asc ''invalid hostname: '' @ hostname))
                  | [] \<Rightarrow>
                      Parsed \<lparr>ID = entryID, IP = ip, Names = hostnames, Comment = comment,
                              Disabled = disabled, Raw = line\<rparr>)))"

text \<open>
  \<open>bufio.Scanner\<close> with the default \<open>ScanLines\<close>, as the standard library documents it: the
  text is cut at every newline, one trailing carriage return is dropped from each line, a last
  line without newline counts when it is not empty, and scanning stops with \<open>ErrTooLong\<close> at a
  line that does not fit the token buffer of \<open>MaxScanTokenSize\<close> bytes.
\<close>

datatype token = Line gostring | TooLong

definition MaxScanTokenSize :: nat where
  "MaxScanTokenSize = 65536"

definition dropCR :: "gostring \<Rightarrow> gostring" where
  "dropCR data = (if data \<noteq> [] \<and> last data = 13 then butlast data else data)"

fun scan_from :: "gostring \<Rightarrow> gostring \<Rightarrow> token list" where
  "scan_from cur [] =
     (if cur = [] then []
      else if blen cur \<ge> MaxScanTokenSize then [TooLong]
      else [Line (dropCR cur)])"
| "scan_from cur (c # cs) =
     (if c = 10
      then (if blen cur \<ge> MaxScanTokenSize then [TooLong] else Line (dropCR cur) # scan_from [] cs)
      else scan_from (cur @ [c]) cs)"

definition ScanLines :: "gostring \<Rightarrow> token list" where
  "ScanLines input = scan_from [] input"

text \<open>
  The body of the loop of \<open>Parser.Parse\<close> for one line: the line is passed over, the parse is
  aborted, or an entry is appended (and only then the entry counter moves on).
\<close>

datatype step = Abort ParseError | Skip | Append Entry

definition parse_step :: "bool \<Rightarrow> gostring \<Rightarrow> goint \<Rightarrow> goint \<Rightarrow> step" where
  "parse_step strict line lineNum entryID =
     (let trimmed = TrimSpace line in
      if trimmed = [] \<or> (HasPrefix trimmed [35] \<and> \<not> isDisabledEntry line) then Skip
      else
        (case parseLine line lineNum entryID of
           LineFailed err \<Rightarrow> if strict then Abort err else Skip
         | NoEntry \<Rightarrow> Skip
         | Parsed entry \<Rightarrow> Append entry))"

datatype parse_failure = LineError ParseError | ReadError

fun parse_loop :: "bool \<Rightarrow> token list \<Rightarrow> goint \<Rightarrow> goint \<Rightarrow> Entry list \<Rightarrow> parse_failure + Entry list" where
  "parse_loop strict [] lineNum entryID entries = Inr entries"
| "parse_loop strict (TooLong # ts) lineNum entryID entries = Inl ReadError"
| "parse_loop strict (Line line # ts) lineNum entryID entries =
     (case parse_step strict line (lineNum + 1) entryID of
        Abort err \<Rightarrow> Inl (LineError err)
      | Skip \<Rightarrow> parse_loop strict ts (lineNum + 1) entryID entries
      | Append entry \<Rightarrow> parse_loop strict ts (lineNum + 1) (entryID + 1) (entries @ [entry]))"

definition Parse :: "bool \<Rightarrow> gostring \<Rightarrow> parse_failure + HostsFile" where
  "Parse strict input =
     (case parse_loop strict (ScanLines input) 0 1 [] of
        Inl err \<Rightarrow> Inl err
      | Inr entries \<Rightarrow> Inr \<lparr>Entries = entries, Path = []\<rparr>)"




section \<open>The validators of pkg/validation.go\<close>








section \<open>The operating system as seen by the program\<close>

text \<open>
  The file system is a map from paths to contents, together with the trace of the system calls
  made so far.  Whether a call fails for a reason outside the model (permissions, a full disk,
  a missing directory) is decided by the environment: \<open>fails\<close> names the calls that fail, and
  \<open>partial\<close> the number of runes a failing copy or write has put down before it failed.
\<close>

datatype syscall =
    SysOpen gostring
  | SysCreate gostring
  | SysCopy gostring gostring
  | SysWriteString gostring
  | SysSync gostring
  | SysRename gostring gostring
  | SysRemove gostring
  | SysOpenFile gostring
  | SysFlock gostring
  | SysFunlock gostring
  | SysClose gostring
  | SysSleep

record world =
  files :: "gostring \<rightharpoonup> gostring"
  trace :: "syscall list"

record os_env =
  euid :: nat
  now :: gostring
  fails :: "syscall \<Rightarrow> bool"
  partial :: nat

definition called :: "syscall \<Rightarrow> world \<Rightarrow> world" where
  "called c w = w\<lparr>trace := trace w @ [c]\<rparr>"


section \<open>The advisory lock (internal/lock/flock.go)\<close>

record FileLock =
  fl_file :: "gostring option"
  fl_path :: gostring
  fl_acquired :: bool

datatype errno = EAGAIN | EACCES | EOTHER

datatype lock_error =
    LockAlreadyAcquired
  | CreateLockFileFailed
  | HeldByAnotherProcess
  | AcquireFailed errno
  | TimeoutWaiting
  | LockNotAcquired
  | ReleaseFailed errno

definition NewFileLock :: "gostring \<Rightarrow> FileLock" where
  "NewFileLock p = \<lparr>fl_file = None, fl_path = p, fl_acquired = False\<rparr>"

text \<open>Decimal digits of a natural number and \<open>%d\<close> of an integer.\<close>

fun dec_nat :: "nat \<Rightarrow> gostring" where
  "dec_nat n = (if n < 10 then [48 + n] else dec_nat (n div 10) @ [48 + n mod 10])"

declare dec_nat.simps [simp del]

definition itoa :: "int \<Rightarrow> gostring" where
  "itoa i = (if i < 0 then 45 # dec_nat (nat (- i)) else dec_nat (nat i))"

text \<open>
  \<open>os.OpenFile(path, O_CREATE|O_WRONLY, 0600)\<close> creates the file when it is missing and keeps
  its content otherwise; \<open>file.WriteString\<close> on the fresh handle overwrites from offset 0.
\<close>

definition os_OpenFile :: "os_env \<Rightarrow> gostring \<Rightarrow> world \<Rightarrow> bool \<times> world" where
  "os_OpenFile env p w =
     (let w1 = called (SysOpenFile p) w in
      if fails env (SysOpenFile p) then (False, w1)
      else (True, (case files w1 p of None \<Rightarrow> w1\<lparr>files := (files w1)(p \<mapsto> [])\<rparr> | Some _ \<Rightarrow> w1)))"

definition write_pid :: "nat \<Rightarrow> gostring \<Rightarrow> world \<Rightarrow> world" where
  "write_pid pid p w =
     (let text = dec_nat pid @ [10];
          w1 = called (SysWriteString p) w;
          old = (case files w1 p of None \<Rightarrow> [] | Some c \<Rightarrow> c);
          w2 = w1\<lparr>files := (files w1)(p \<mapsto> text @ drop (length text) old)\<rparr>
      in called (SysSync p) w2)"

text \<open>
  \<open>FileLock.TryLock\<close>.  The result of the one \<open>flock(LOCK_EX|LOCK_NB)\<close> call is an input:
  \<open>None\<close> for success, otherwise the error number.
\<close>

definition TryLock :: "FileLock \<Rightarrow> os_env \<Rightarrow> nat \<Rightarrow> errno option \<Rightarrow> world
    \<Rightarrow> lock_error option \<times> FileLock \<times> world" where
  "TryLock fl env pid flock_result w =
     (if fl_acquired fl then (Some LockAlreadyAcquired, fl, w)
      else
        let lockfile = fl_path fl @ asc ''.lock'';
            (opened, w1) = os_OpenFile env lockfile w in
        if \<not> opened then (Some CreateLockFileFailed, fl, w1)
        else
          let w2 = called (SysFlock lockfile) w1 in
          (case flock_result of
             Some e \<Rightarrow>
               (if e = EAGAIN \<or> e = EACCES
                then (Some HeldByAnotherProcess, fl, called (SysClose lockfile) w2)
                else (Some (AcquireFailed e), fl, called (SysClose lockfile) w2))
           | None \<Rightarrow>
               (None, fl\<lparr>fl_file := Some lockfile, fl_acquired := True\<rparr>,
                write_pid pid lockfile w2)))"

text \<open>
  \<open>FileLock.LockWithTimeout\<close>.  Each round of the polling loop makes one \<open>flock\<close> call and,
  when that call reports contention, reads the clock; the environment supplies both as a list of
  observations, one per round.  The loop has no result (\<open>None\<close>) when the observations end
  before it returns.
\<close>

fun lock_loop :: "FileLock \<Rightarrow> gostring \<Rightarrow> int \<Rightarrow> nat \<Rightarrow> (errno option \<times> int) list \<Rightarrow> world
    \<Rightarrow> (lock_error option \<times> FileLock \<times> world) option" where
  "lock_loop fl lockfile deadline pid [] w = None"
| "lock_loop fl lockfile deadline pid ((flock_result, t) # obs) w =
     (let w1 = called (SysFlock lockfile) w in
      case flock_result of
        None \<Rightarrow> Some (None, fl\<lparr>fl_file := Some lockfile, fl_acquired := True\<rparr>,
                       write_pid pid lockfile w1)
      | Some e \<Rightarrow>
          if e \<noteq> EAGAIN \<and> e \<noteq> EACCES
          then Some (Some (AcquireFailed e), fl, called (SysClose lockfile) w1)
          else if t > deadline
          then Some (Some TimeoutWaiting, fl, called (SysClose lockfile) w1)
          else lock_loop fl lockfile deadline pid obs (called SysSleep w1))"

definition LockWithTimeout :: "FileLock \<Rightarrow> int \<Rightarrow> os_env \<Rightarrow> nat \<Rightarrow> int
    \<Rightarrow> (errno option \<times> int) list \<Rightarrow> world \<Rightarrow> (lock_error option \<times> FileLock \<times> world) option" where
  "LockWithTimeout fl timeout env pid start obs w =
     (if fl_acquired fl then Some (Some LockAlreadyAcquired, fl, w)
      else
        let lockfile = fl_path fl @ asc ''.lock'';
            (opened, w1) = os_OpenFile env lockfile w in
        if \<not> opened then Some (Some CreateLockFileFailed, fl, w1)
        else lock_loop fl lockfile (start + timeout) pid obs w1)"

text \<open>\<open>FileLock.Unlock\<close>; the result of \<open>flock(LOCK_UN)\<close> is an input.\<close>

definition Unlock :: "FileLock \<Rightarrow> errno option \<Rightarrow> world \<Rightarrow> lock_error option \<times> FileLock \<times> world" where
  "Unlock fl funlock_result w =
     (if \<not> fl_acquired fl then (Some LockNotAcquired, fl, w)
      else
        let lockfile = fl_path fl @ asc ''.lock'';
            w1 = called (SysFunlock lockfile) w in
        (case funlock_result of
           Some e \<Rightarrow> (Some (ReleaseFailed e), fl, w1)
         | None \<Rightarrow>
             let w2 = called (SysClose lockfile) w1;
                 w3 = called (SysRemove lockfile) w2;
                 w4 = w3\<lparr>files := (files w3)(lockfile := None)\<rparr>
             in (None, fl\<lparr>fl_file := None, fl_acquired := False\<rparr>, w4)))"

definition IsLocked :: "FileLock \<Rightarrow> bool" where
  "IsLocked fl = fl_acquired fl"


section \<open>The store: saving (internal/hosts/store.go)\<close>

record Store =
  s_path :: gostring
  s_strict :: bool

datatype os_error = OpenError | CreateError | CopyError | WriteError | SyncError | RenameError

datatype save_error =
    RootRequired
  | BackupFailed os_error
  | WriteTempFailed os_error
  | ReplaceFailed os_error

definition NewStore :: "gostring \<Rightarrow> bool \<Rightarrow> Store" where
  "NewStore p strict = \<lparr>s_path = p, s_strict = strict\<rparr>"

definition requiresRoot :: "Store \<Rightarrow> os_env \<Rightarrow> save_error option" where
  "requiresRoot s env =
     (if s_path s = asc ''/etc/hosts'' \<and> euid env \<noteq> 0 then Some RootRequired else None)"

text \<open>
  \<open>Store.createBackup\<close>: open the current file, create the backup file, copy.  \<open>now env\<close> is
  \<open>time.Now().Format("20060102-150405")\<close>.
\<close>

definition createBackup :: "Store \<Rightarrow> os_env \<Rightarrow> world \<Rightarrow> os_error option \<times> world" where
  "createBackup s env w =
     (let backupPath = s_path s @ asc ''.hostsctl.'' @ now env @ asc ''.bak'';
          w1 = called (SysOpen (s_path s)) w in
      if files w1 (s_path s) = None \<or> fails env (SysOpen (s_path s)) then (Some OpenError, w1)
      else
        let w2 = called (SysCreate backupPath) w1 in
        if fails env (SysCreate backupPath) then (Some CreateError, w2)
        else
          let w3 = w2\<lparr>files := (files w2)(backupPath \<mapsto> [])\<rparr>;
              w4 = called (SysCopy (s_path s) backupPath) w3;
              content = (case files w4 (s_path s) of None \<Rightarrow> [] | Some c \<Rightarrow> c) in
          if fails env (SysCopy (s_path s) backupPath)
          then (Some CopyError, w4\<lparr>files := (files w4)(backupPath \<mapsto> take (partial env) content)\<rparr>)
          else (None, w4\<lparr>files := (files w4)(backupPath \<mapsto> content)\<rparr>))"

text \<open>\<open>Store.writeTemp\<close>: create, write, fsync.\<close>

definition writeTemp :: "Store \<Rightarrow> os_env \<Rightarrow> gostring \<Rightarrow> gostring \<Rightarrow> world \<Rightarrow> os_error option \<times> world" where
  "writeTemp s env tempPath content w =
     (let w1 = called (SysCreate tempPath) w in
      if fails env (SysCreate tempPath) then (Some CreateError, w1)
      else
        let w2 = w1\<lparr>files := (files w1)(tempPath \<mapsto> [])\<rparr>;
            w3 = called (SysWriteString tempPath) w2 in
        if fails env (SysWriteString tempPath)
        then (Some WriteError, w3\<lparr>files := (files w3)(tempPath \<mapsto> take (partial env) content)\<rparr>)
        else
          let w4 = w3\<lparr>files := (files w3)(tempPath \<mapsto> content)\<rparr>;
              w5 = called (SysSync tempPath) w4 in
          if fails env (SysSync tempPath) then (Some SyncError, w5) else (None, w5))"

text \<open>\<open>os.Rename\<close> followed, on failure, by \<open>os.Remove\<close> of the temporary file.\<close>

definition os_Rename :: "os_env \<Rightarrow> gostring \<Rightarrow> gostring \<Rightarrow> world \<Rightarrow> bool \<times> world" where
  "os_Rename env src dst w =
     (let w1 = called (SysRename src dst) w in
      case files w1 src of
        None \<Rightarrow> (False, w1)
      | Some c \<Rightarrow>
          if fails env (SysRename src dst) then (False, w1)
          else (True, w1\<lparr>files := ((files w1)(src := None))(dst \<mapsto> c)\<rparr>))"

definition os_Remove :: "gostring \<Rightarrow> world \<Rightarrow> world" where
  "os_Remove p w = (let w1 = called (SysRemove p) w in w1\<lparr>files := (files w1)(p := None)\<rparr>)"

text \<open>\<open>Store.Save\<close>.\<close>

definition Save :: "Store \<Rightarrow> HostsFile \<Rightarrow> os_env \<Rightarrow> world \<Rightarrow> save_error option \<times> world" where
  "Save s hostsFile env w =
     (case requiresRoot s env of
        Some err \<Rightarrow> (Some err, w)
      | None \<Rightarrow>
          let content = Serialize hostsFile in
          (case createBackup s env w of
             (Some err, w1) \<Rightarrow> (Some (BackupFailed err), w1)
           | (None, w1) \<Rightarrow>
               let tempPath = s_path s @ asc ''.tmp'' in
               (case writeTemp s env tempPath content w1 of
                  (Some err, w2) \<Rightarrow> (Some (WriteTempFailed err), w2)
                | (None, w2) \<Rightarrow>
                    (case os_Rename env tempPath (s_path s) w2 of
                       (False, w3) \<Rightarrow> (Some (ReplaceFailed RenameError), os_Remove tempPath w3)
                     | (True, w3) \<Rightarrow> (None, w3)))))"

text \<open>The calls that write the temporary file or replace the canonical file.\<close>

fun destructive :: "Store \<Rightarrow> syscall \<Rightarrow> bool" where
  "destructive s (SysCreate p) = (p = s_path s @ asc ''.tmp'' \<or> p = s_path s)"
| "destructive s (SysWriteString p) = True"
| "destructive s (SysRename src dst) = True"
| "destructive s (SysRemove p) = True"
| "destructive s c = False"


section \<open>The store: loading and verifying (internal/hosts/store.go)\<close>

text \<open>
  \<open>Store.Load\<close>: open the file, parse it in the store's mode, attach the path.  Reading an
  opened file is taken to succeed.
\<close>

datatype load_error = OpenFailed | ParseFailed parse_failure

definition Load :: "Store \<Rightarrow> os_env \<Rightarrow> world \<Rightarrow> (load_error + HostsFile) \<times> world" where
  "Load s env w =
     (let w1 = called (SysOpen (s_path s)) w in
      case files w1 (s_path s) of
        None \<Rightarrow> (Inl OpenFailed, w1)
      | Some content \<Rightarrow>
          if fails env (SysOpen (s_path s)) then (Inl OpenFailed, w1)
          else
            let w2 = called (SysClose (s_path s)) w1 in
            (case Parse (s_strict s) content of
               Inl err \<Rightarrow> (Inl (ParseFailed err), w2)
             | Inr hostsFile \<Rightarrow> (Inr (hostsFile\<lparr>Path := s_path s\<rparr>), w2)))"

text \<open>The issue strings of \<open>Store.Verify\<close>; rune 39 is the apostrophe.\<close>

definition issue_invalid_entry :: "goint \<Rightarrow> gostring" where
  "issue_invalid_entry n = asc ''entry '' @ itoa (sint n) @ asc '': invalid entry (missing IP or names)''"

definition issue_invalid_ip :: "goint \<Rightarrow> gostring \<Rightarrow> gostring" where
  "issue_invalid_ip n ip = asc ''entry '' @ itoa (sint n) @ asc '': invalid IP address: '' @ ip"

definition issue_invalid_hostname :: "goint \<Rightarrow> gostring \<Rightarrow> gostring" where
  "issue_invalid_hostname n name = asc ''entry '' @ itoa (sint n) @ asc '': invalid hostname: '' @ name"

definition issue_duplicate :: "gostring \<Rightarrow> goint list \<Rightarrow> gostring" where
  "issue_duplicate name ids =
     asc ''duplicate hostname '' @ [39] @ name @ [39] @ asc '' found in entries: ''
       @ [91] @ Join (map (\<lambda>n. itoa (sint n)) ids) [32] @ [93]"

text \<open>
  \<open>seenNames\<close>, the map from a hostname to the ids of the entries that list it, is kept as
  an association list with one pair per key.  \<open>seen_append\<close> is
  \<open>seenNames[name] = append(seenNames[name], id)\<close>.
\<close>

type_synonym seen = "(gostring \<times> goint list) list"

fun seen_append :: "gostring \<Rightarrow> goint \<Rightarrow> seen \<Rightarrow> seen" where
  "seen_append name n [] = [(name, [n])]"
| "seen_append name n ((k, v) # rest) =
     (if k = name then (k, v @ [n]) # rest else (k, v) # seen_append name n rest)"

fun names_loop :: "gostring list \<Rightarrow> goint \<Rightarrow> gostring list \<times> seen \<Rightarrow> gostring list \<times> seen" where
  "names_loop [] n st = st"
| "names_loop (name # names) n (issues, seenNames) =
     names_loop names n
       (if \<not> isValidHostname name then issues @ [issue_invalid_hostname n name] else issues,
        seen_append name n seenNames)"

fun entries_loop :: "Entry list \<Rightarrow> gostring list \<times> seen \<Rightarrow> gostring list \<times> seen" where
  "entries_loop [] st = st"
| "entries_loop (entry # es) (issues, seenNames) =
     (if \<not> IsValid entry
      then entries_loop es (issues @ [issue_invalid_entry (ID entry)], seenNames)
      else entries_loop es
             (names_loop (Names entry) (ID entry)
                (if \<not> isValidIP (IP entry)
                 then issues @ [issue_invalid_ip (ID entry) (IP entry)] else issues,
                 seenNames)))"

fun duplicates_loop :: "seen \<Rightarrow> gostring list \<Rightarrow> gostring list" where
  "duplicates_loop [] issues = issues"
| "duplicates_loop ((name, ids) # rest) issues =
     duplicates_loop rest (if length ids > 1 then issues @ [issue_duplicate name ids] else issues)"

text \<open>
  \<open>Store.Verify\<close>.  Go does not fix the order in which \<open>range\<close> visits the keys of a map:
  \<open>range_order\<close> is the rearrangement in which the second loop visits \<open>seenNames\<close>.
\<close>

definition Verify :: "Store \<Rightarrow> os_env \<Rightarrow> (seen \<Rightarrow> seen) \<Rightarrow> world
    \<Rightarrow> (load_error + gostring list) \<times> world" where
  "Verify s env range_order w =
     (case Load s env w of
        (Inl err, w1) \<Rightarrow> (Inl err, w1)
      | (Inr hostsFile, w1) \<Rightarrow>
          (case entries_loop (Entries hostsFile) ([], []) of
             (issues, seenNames) \<Rightarrow> (Inr (duplicates_loop (range_order seenNames) issues), w1)))"

text \<open>The ids recorded under a key, and the ids that entries listing a name contribute.\<close>

definition lookup :: "seen \<Rightarrow> gostring \<Rightarrow> goint list" where
  "lookup m k = (case map_of m k of None \<Rightarrow> [] | Some v \<Rightarrow> v)"

definition owners :: "Entry list \<Rightarrow> gostring \<Rightarrow> goint list" where
  "owners es k = concat (map (\<lambda>e. replicate (count_list (Names e) k) (ID e)) es)"

section \<open>Notions used in the statements and proofs\<close>

text \<open>
  \<open>starts r s m\<close>: the first match of \<open>r\<close> at the start of \<open>s\<close> is \<open>m\<close>; \<open>fails r s\<close>: \<open>r\<close> does
  not match at the start of \<open>s\<close>.
\<close>

definition starts :: "regex \<Rightarrow> gostring \<Rightarrow> caps \<times> gostring \<Rightarrow> bool" where
  "starts r s m = (\<forall>b. \<exists>zs. ms r b s = m # zs)"

definition fails :: "regex \<Rightarrow> gostring \<Rightarrow> bool" where
  "fails r s = (\<forall>b. ms r b s = [])"

text \<open>
  The parts of \<open>entryRegex\<close>: the marker \<^verbatim>\<open>(\s*#\s*)\<close>, the comment \<^verbatim>\<open>\s*#\s*(.*)\<close> and the end
  \<^verbatim>\<open>(?:\s*#\s*(.*))?$\<close>.
\<close>

definition re_comment :: regex where
  "re_comment = Seq (Star re_s) (Seq (re_chr 35) (Seq (Star re_s) (Group 4 (Star re_dot))))"

definition re_tail :: regex where
  "re_tail = Seq (Opt re_comment) Eol"

definition re_prefix :: regex where
  "re_prefix = Group 1 (Seq (Star re_s) (Seq (re_chr 35) (Star re_s)))"




section \<open>Model operations: identifier assignment\<close>

lemma maxID_loop_fold:
  "sint (maxID_loop es m) = fold max (map (\<lambda>e. sint (ID e)) es) (sint m)"
proof (induction es arbitrary: m)
  case Nil
  show ?case by simp
next
  case (Cons e es)
  show ?case
  proof (cases "m <s ID e")
    case True
    then have "max (sint (ID e)) (sint m) = sint (ID e)" by (simp add: word_sless_alt)
    then show ?thesis using True Cons.IH [of "ID e"] by simp
  next
    case False
    then have "max (sint (ID e)) (sint m) = sint m" by (simp add: word_sless_alt)
    then show ?thesis using False Cons.IH [of m] by simp
  qed
qed

lemma maxID_loop_sint:
  "sint (maxID_loop es m) = Max (insert (sint m) (sint ` ID ` set es))"
proof -
  have "Max (set (sint m # map (\<lambda>e. sint (ID e)) es)) = fold max (map (\<lambda>e. sint (ID e)) es) (sint m)"
    by (rule Max.set_eq_fold)
  moreover have "set (sint m # map (\<lambda>e. sint (ID e)) es) = insert (sint m) (sint ` ID ` set es)"
    by (simp add: image_image)
  ultimately show ?thesis by (simp only: maxID_loop_fold)
qed

lemma maxID_loop_zero:
  assumes "es \<noteq> []"
  shows "sint (maxID_loop es 0) = max 0 (Max (sint ` ID ` set es))"
proof -
  have "sint ` ID ` set es \<noteq> {}" using assms by simp
  then show ?thesis by (simp add: maxID_loop_sint)
qed

lemma sint_succ_in_range:
  assumes "0 \<le> M" "M < 2 ^ 63 - 1"
  shows "sint (word_of_int M + 1 :: goint) = M + 1"
proof -
  have e: "word_of_int M + 1 = (word_of_int (M + 1) :: goint)" by simp
  have "signed_take_bit 63 (M + 1) = M + 1"
    using assms by (intro signed_take_bit_int_eq_self) auto
  then have "sint (word_of_int (M + 1) :: goint) = M + 1"
    by (simp only: sint_sbintrunc') simp
  then show ?thesis by (simp only: e)
qed

text \<open>
  C8 (as stated).  The new id is \<open>max(existing ids) + 1\<close> for every non-empty file.  The loop
  starts from 0, so on a file whose only id is \<open>-5\<close> the new id is 1, not \<open>-4\<close>.
\<close>

theorem AddEntry_max_plus_one_counterexample:
  "ID (last (Entries (AddEntry
      \<lparr>Entries = [\<lparr>ID = - 5, IP = [49], Names = [[97]], Comment = [], Disabled = False, Raw = []\<rparr>],
       Path = []\<rparr>
      \<lparr>ID = 0, IP = [50], Names = [[98]], Comment = [], Disabled = False, Raw = []\<rparr>))) = 1
   \<and> Max (sint ` ID ` set [\<lparr>ID = - 5 :: goint, IP = [49], Names = [[97]], Comment = [],
                              Disabled = False, Raw = []\<rparr>]) + 1 = - 4"
  by (simp add: AddEntry_def word_sless_alt)

text \<open>
  C8 (amended).  \<open>AddEntry\<close> appends the entry at the end, leaves the existing entries and the
  path as they are, and gives the new entry the id 1 on an empty file and otherwise
  \<open>max(0, existing ids) + 1\<close> in 64-bit arithmetic; that is \<open>max(existing ids) + 1\<close> whenever
  some existing id is non-negative and the largest id is below the largest \<open>int\<close>.
\<close>

theorem AddEntry_assigns_next_id:
  "(let n = ID (last (Entries (AddEntry h e))) in
     AddEntry h e = h\<lparr>Entries := Entries h @ [e\<lparr>ID := n\<rparr>]\<rparr>
     \<and> (Entries h = [] \<longrightarrow> n = 1)
     \<and> (Entries h \<noteq> [] \<longrightarrow> n = word_of_int (max 0 (Max (sint ` ID ` set (Entries h))) + 1))
     \<and> (Entries h \<noteq> [] \<and> (\<exists>x \<in> set (Entries h). 0 \<le> sint (ID x))
          \<and> (\<forall>x \<in> set (Entries h). sint (ID x) < 2 ^ 63 - 1)
        \<longrightarrow> sint n = Max (sint ` ID ` set (Entries h)) + 1))"
proof -
  let ?M = "Max (sint ` ID ` set (Entries h))"
  have shape: "AddEntry h e = h\<lparr>Entries := Entries h @ [e\<lparr>ID := ID (last (Entries (AddEntry h e)))\<rparr>]\<rparr>"
    by (simp add: AddEntry_def Let_def)
  have empty: "Entries h = [] \<Longrightarrow> ID (last (Entries (AddEntry h e))) = 1"
    by (simp add: AddEntry_def)
  have nonempty: "ID (last (Entries (AddEntry h e))) = word_of_int (max 0 ?M + 1)"
    if ne: "Entries h \<noteq> []"
  proof -
    have "ID (last (Entries (AddEntry h e))) = maxID_loop (Entries h) 0 + 1"
      using ne by (simp add: AddEntry_def)
    also have "maxID_loop (Entries h) 0 = word_of_int (sint (maxID_loop (Entries h) 0))"
      by simp
    also have "\<dots> = word_of_int (max 0 ?M)"
      using maxID_loop_zero [OF ne] by simp
    finally show ?thesis by simp
  qed
  have exact: "sint (ID (last (Entries (AddEntry h e)))) = ?M + 1"
    if ne: "Entries h \<noteq> []" and pos: "\<exists>x \<in> set (Entries h). 0 \<le> sint (ID x)"
      and small: "\<forall>x \<in> set (Entries h). sint (ID x) < 2 ^ 63 - 1"
  proof -
    obtain x where x: "x \<in> set (Entries h)" "0 \<le> sint (ID x)" using pos by blast
    have fin: "finite (sint ` ID ` set (Entries h))" by simp
    have "sint (ID x) \<le> ?M" using x(1) fin by (intro Max_ge) auto
    then have M0: "0 \<le> ?M" using x(2) by linarith
    have "?M \<in> sint ` ID ` set (Entries h)" using ne fin by (intro Max_in) auto
    then have Mlt: "?M < 2 ^ 63 - 1" using small by auto
    have "sint (word_of_int ?M + 1 :: goint) = ?M + 1"
      using M0 Mlt by (rule sint_succ_in_range)
    then show ?thesis using nonempty [OF ne] M0 by (simp add: max_def)
  qed
  show ?thesis
    unfolding Let_def using shape empty nonempty exact by blast
qed

theorem AddEntry_assigns_next_id_witness:
  "ID (last (Entries (AddEntry
      \<lparr>Entries = [\<lparr>ID = 1, IP = [49], Names = [[97]], Comment = [], Disabled = False, Raw = []\<rparr>,
                  \<lparr>ID = 5, IP = [50], Names = [[98]], Comment = [], Disabled = False, Raw = []\<rparr>],
       Path = []\<rparr>
      \<lparr>ID = 0, IP = [51], Names = [[99]], Comment = [], Disabled = False, Raw = []\<rparr>))) = 6
   \<and> ID (last (Entries (AddEntry \<lparr>Entries = [], Path = []\<rparr>
      \<lparr>ID = 7, IP = [51], Names = [[99]], Comment = [], Disabled = False, Raw = []\<rparr>))) = 1"
proof -
  let ?h = "\<lparr>Entries = [\<lparr>ID = 1 :: goint, IP = [49], Names = [[97]], Comment = [], Disabled = False, Raw = []\<rparr>,
                  \<lparr>ID = 5, IP = [50], Names = [[98]], Comment = [], Disabled = False, Raw = []\<rparr>],
       Path = []\<rparr>"
  let ?e = "\<lparr>ID = 0 :: goint, IP = [51], Names = [[99]], Comment = [], Disabled = False, Raw = []\<rparr>"
  let ?e7 = "\<lparr>ID = 7 :: goint, IP = [51], Names = [[99]], Comment = [], Disabled = False, Raw = []\<rparr>"
  have a: "ID (last (Entries (AddEntry ?h ?e))) = word_of_int (max 0 (Max (sint ` ID ` set (Entries ?h))) + 1)"
    using AddEntry_assigns_next_id [of ?h ?e] unfolding Let_def by simp
  have b: "ID (last (Entries (AddEntry \<lparr>Entries = [], Path = []\<rparr> ?e7))) = 1"
    using AddEntry_assigns_next_id [of "\<lparr>Entries = [], Path = []\<rparr>" ?e7] unfolding Let_def by simp
  from a have "ID (last (Entries (AddEntry ?h ?e))) = 6" by simp
  with b show ?thesis by simp
qed


section \<open>The lock refuses re-entrant use\<close>

text \<open>
  C9.  \<open>Unlock\<close> on a released instance is an error, and \<open>TryLock\<close> and \<open>LockWithTimeout\<close> on
  an instance that already holds the lock are errors; in each case the instance is returned as
  it was and no system call is made (the file system and the call trace are unchanged), so no
  acquisition is attempted.
\<close>

theorem lock_misuse_is_error:
  "(\<not> fl_acquired fl \<longrightarrow> Unlock fl funlock_result w = (Some LockNotAcquired, fl, w))
   \<and> (fl_acquired fl \<longrightarrow>
        TryLock fl env pid flock_result w = (Some LockAlreadyAcquired, fl, w)
        \<and> LockWithTimeout fl timeout env pid start obs w = Some (Some LockAlreadyAcquired, fl, w))"
  by (simp add: Unlock_def TryLock_def LockWithTimeout_def)

theorem lock_misuse_is_error_witness:
  "Unlock (NewFileLock [104]) None \<lparr>files = Map.empty, trace = []\<rparr>
     = (Some LockNotAcquired, NewFileLock [104], \<lparr>files = Map.empty, trace = []\<rparr>)
   \<and> fl_acquired (fst (snd (TryLock (NewFileLock [104])
         \<lparr>euid = 0, now = [], fails = (\<lambda>c. False), partial = 0\<rparr> 7 None
         \<lparr>files = Map.empty, trace = []\<rparr>)))
   \<and> (let held = fst (snd (TryLock (NewFileLock [104])
         \<lparr>euid = 0, now = [], fails = (\<lambda>c. False), partial = 0\<rparr> 7 None
         \<lparr>files = Map.empty, trace = []\<rparr>)) in
       TryLock held \<lparr>euid = 0, now = [], fails = (\<lambda>c. False), partial = 0\<rparr> 7 None
         \<lparr>files = Map.empty, trace = []\<rparr>
       = (Some LockAlreadyAcquired, held, \<lparr>files = Map.empty, trace = []\<rparr>)
       \<and> LockWithTimeout held 5 \<lparr>euid = 0, now = [], fails = (\<lambda>c. False), partial = 0\<rparr> 7 0
            [(None, 1)] \<lparr>files = Map.empty, trace = []\<rparr>
          = Some (Some LockAlreadyAcquired, held, \<lparr>files = Map.empty, trace = []\<rparr>))"
proof -
  let ?env = "\<lparr>euid = 0, now = [], fails = (\<lambda>c. False), partial = 0\<rparr>"
  let ?w = "\<lparr>files = Map.empty, trace = []\<rparr>"
  let ?held = "fst (snd (TryLock (NewFileLock [104]) ?env 7 None ?w))"
  have released: "\<not> fl_acquired (NewFileLock [104])" by (simp add: NewFileLock_def)
  have held: "fl_acquired ?held"
    by (simp add: TryLock_def NewFileLock_def os_OpenFile_def Let_def called_def)
  have a: "Unlock (NewFileLock [104]) None ?w = (Some LockNotAcquired, NewFileLock [104], ?w)"
    using lock_misuse_is_error [of "NewFileLock [104]" None ?w] released by blast
  have b: "TryLock ?held ?env 7 None ?w = (Some LockAlreadyAcquired, ?held, ?w)
           \<and> LockWithTimeout ?held 5 ?env 7 0 [(None, 1)] ?w = Some (Some LockAlreadyAcquired, ?held, ?w)"
    using lock_misuse_is_error [of ?held None ?w ?env 7 None 5 0 "[(None, 1)]"] held by blast
  show ?thesis unfolding Let_def using a b held by blast
qed


section \<open>Saving never touches the canonical file before the rename\<close>

lemma backupPath_neq_path: "p @ asc ''.hostsctl.'' @ t @ asc ''.bak'' \<noteq> p"
  by (simp add: asc_def)

lemma backupPath_neq_tmp: "p @ asc ''.hostsctl.'' @ t @ asc ''.bak'' \<noteq> p @ asc ''.tmp''"
  by (simp add: asc_def)

lemma createBackup_keeps_canonical:
  assumes "createBackup s env w = (r, w1)"
  shows "files w1 (s_path s) = files w (s_path s)"
  using assms backupPath_neq_path [of "s_path s" "now env"]
  by (auto simp: createBackup_def Let_def called_def split: if_splits)

lemma createBackup_trace:
  assumes "createBackup s env w = (r, w1)"
  shows "\<exists>cs. trace w1 = trace w @ cs \<and> (\<forall>c \<in> set cs. \<not> destructive s c)"
  using assms backupPath_neq_path [of "s_path s" "now env"] backupPath_neq_tmp [of "s_path s" "now env"]
  by (auto simp: createBackup_def Let_def called_def split: if_splits)

lemma createBackup_missing_file:
  assumes "files w (s_path s) = None"
  shows "fst (createBackup s env w) = Some OpenError"
  using assms by (simp add: createBackup_def Let_def called_def)

text \<open>
  C1.  When the privilege check passes and the backup step fails, whatever the failure (the
  current file cannot be opened, the backup file cannot be created, the copy breaks off),
  \<open>Save\<close> returns an error, the content at the store's path is what it was, and \<open>Save\<close> stops
  where the backup step stopped: nothing was created at the temporary or canonical path, and
  nothing was written, renamed or removed.
\<close>

theorem Save_backup_failure_leaves_file:
  assumes "requiresRoot s env = None"
    and "createBackup s env w = (Some err, w1)"
  shows "Save s hostsFile env w = (Some (BackupFailed err), w1)
         \<and> files w1 (s_path s) = files w (s_path s)
         \<and> (\<exists>cs. trace w1 = trace w @ cs \<and> (\<forall>c \<in> set cs. \<not> destructive s c))"
proof -
  have "Save s hostsFile env w = (Some (BackupFailed err), w1)"
    using assms by (simp add: Save_def)
  then show ?thesis
    using createBackup_keeps_canonical [OF assms(2)] createBackup_trace [OF assms(2)] by simp
qed

theorem Save_backup_failure_leaves_file_witness:
  "(let s = NewStore [104] False;
        bak = [104] @ asc ''.hostsctl.'' @ asc ''20260101-000000'' @ asc ''.bak'';
        env = \<lparr>euid = 1000, now = asc ''20260101-000000'', fails = (\<lambda>c. c = SysCreate bak), partial = 0\<rparr>;
        w = \<lparr>files = [[104] \<mapsto> [49, 32, 97, 10]], trace = []\<rparr>;
        h = \<lparr>Entries = [], Path = [104]\<rparr>
    in fst (Save s h env w) = Some (BackupFailed CreateError)
       \<and> files (snd (Save s h env w)) [104] = Some [49, 32, 97, 10]
       \<and> trace (snd (Save s h env w)) = [SysOpen [104], SysCreate bak])"
proof -
  let ?s = "NewStore [104] False"
  let ?bak = "[104] @ asc ''.hostsctl.'' @ asc ''20260101-000000'' @ asc ''.bak''"
  let ?env = "\<lparr>euid = 1000, now = asc ''20260101-000000'', fails = (\<lambda>c. c = SysCreate ?bak), partial = 0\<rparr>"
  let ?w = "\<lparr>files = [[104] \<mapsto> [49, 32, 97, 10]], trace = []\<rparr>"
  let ?h = "\<lparr>Entries = [], Path = [104]\<rparr>"
  let ?w1 = "\<lparr>files = [[104] \<mapsto> [49, 32, 97, 10]], trace = [SysOpen [104], SysCreate ?bak]\<rparr>"
  have root: "requiresRoot ?s ?env = None"
    by (simp add: requiresRoot_def NewStore_def asc_def)
  have bk: "createBackup ?s ?env ?w = (Some CreateError, ?w1)"
    by (simp add: createBackup_def NewStore_def Let_def called_def)
  have "Save ?s ?h ?env ?w = (Some (BackupFailed CreateError), ?w1)"
    using Save_backup_failure_leaves_file [OF root bk, of ?h] by blast
  then show ?thesis unfolding Let_def by simp
qed

text \<open>
  C10.  When no file exists at the store's path, \<open>Save\<close> returns an error and there is still
  no file at that path afterwards: either the privilege check refuses, or the backup step fails
  to open the current file.
\<close>

theorem Save_missing_file_fails:
  assumes "files w (s_path s) = None"
  shows "fst (Save s hostsFile env w) \<noteq> None
         \<and> files (snd (Save s hostsFile env w)) (s_path s) = None"
proof (cases "requiresRoot s env")
  case (Some e)
  then show ?thesis using assms by (simp add: Save_def)
next
  case None
  obtain r w1 where bk: "createBackup s env w = (r, w1)" by (cases "createBackup s env w")
  have "r = Some OpenError" using createBackup_missing_file [OF assms, of env] bk by simp
  then have "Save s hostsFile env w = (Some (BackupFailed OpenError), w1)"
    using None bk by (simp add: Save_def)
  then show ?thesis using createBackup_keeps_canonical [OF bk] assms by simp
qed

theorem Save_missing_file_fails_witness:
  "fst (Save (NewStore [104] False) \<lparr>Entries = [], Path = [104]\<rparr>
         \<lparr>euid = 1000, now = [], fails = (\<lambda>c. False), partial = 0\<rparr>
         \<lparr>files = Map.empty, trace = []\<rparr>) \<noteq> None
   \<and> files (snd (Save (NewStore [104] False) \<lparr>Entries = [], Path = [104]\<rparr>
         \<lparr>euid = 1000, now = [], fails = (\<lambda>c. False), partial = 0\<rparr>
         \<lparr>files = Map.empty, trace = []\<rparr>)) [104] = None"
proof -
  have "files \<lparr>files = Map.empty, trace = []\<rparr> (s_path (NewStore [104] False)) = None" by simp
  from Save_missing_file_fails [OF this] show ?thesis by (simp add: NewStore_def)
qed



section \<open>Evaluating the parser on concrete text\<close>

lemma UpTo_numeral: "UpTo r (numeral k) = Opt (Seq r (UpTo r (pred_numeral k)))"
  by (simp add: numeral_eq_Suc)

lemmas regex_eval = FindStringSubmatch_def MatchString_def entryRegex_def hostnameRegex_def
  ipv4Regex_def re_octet_def Plus_def LazyPlus_def re_s_def re_S_def re_dot_def re_chr_def
  re_range_def re_alnum_def re_alnum_hyphen_def alnum_def is_s_def upt_rec UpTo_numeral
  ms.simps(8) ms.simps(9)

lemmas parser_eval = asc_def parse_step_def parseLine_def isDisabledEntry_def isValidIP_def
  isValidIPv6_def isValidIPv6Part_def valid_octet_def isValidHostname_def TrimSpace_def
  Fields_def HasPrefix_def Split_def isSpace_def blen_def rune_len_def Let_def

lemmas step_eval = parse_step_def parseLine_def isDisabledEntry_def TrimSpace_def
  Fields_def HasPrefix_def isSpace_def Let_def


section \<open>The IPv4 validators\<close>



section \<open>The loop body of the parser\<close>

lemma FindStringSubmatch_length: "FindStringSubmatch r n s = Some m \<Longrightarrow> length m = Suc n"
  by (auto simp: FindStringSubmatch_def split: option.splits)

lemma parseLine_cases:
  "parseLine line ln eid = NoEntry
   \<or> (\<exists>reason. parseLine line ln eid = LineFailed (ParseError ln line reason)
        \<and> (\<forall>ln' eid'. parseLine line ln' eid' = LineFailed (ParseError ln' line reason)))
   \<or> (\<exists>e. parseLine line ln eid = Parsed (e\<lparr>ID := eid\<rparr>)
        \<and> (\<forall>ln' eid'. parseLine line ln' eid' = Parsed (e\<lparr>ID := eid'\<rparr>)))"
proof (cases "TrimSpace line = []")
  case True
  then show ?thesis by (simp add: parseLine_def)
next
  case ne: False
  show ?thesis
  proof (cases "FindStringSubmatch entryRegex 4 line")
    case None
    then show ?thesis using ne by (simp add: parseLine_def)
  next
    case (Some m)
    have len: "length m = 5" using FindStringSubmatch_length [OF Some] by simp
    show ?thesis
    proof (cases "isValidIP (TrimSpace (m ! 2))")
      case False
      then show ?thesis using ne Some len by (simp add: parseLine_def Let_def)
    next
      case ip: True
      show ?thesis
      proof (cases "filter (\<lambda>hostname. \<not> isValidHostname hostname) (Fields (TrimSpace (m ! 3)))")
        case Nil
        let ?e = "\<lparr>ID = 0, IP = TrimSpace (m ! 2), Names = Fields (TrimSpace (m ! 3)),
                   Comment = TrimSpace (m ! 4), Disabled = (TrimSpace (m ! 1) \<noteq> []), Raw = line\<rparr>"
        have "\<forall>ln' eid'. parseLine line ln' eid' = Parsed (?e\<lparr>ID := eid'\<rparr>)"
          using ne Some len ip Nil by (simp add: parseLine_def Let_def)
        then show ?thesis by blast
      next
        case (Cons h hs)
        then show ?thesis using ne Some len ip by (simp add: parseLine_def Let_def)
      qed
    qed
  qed
qed

lemma parse_step_cases:
  "(\<forall>ln eid. parse_step strict line ln eid = Skip)
   \<or> (\<exists>reason. \<forall>ln eid. parse_step strict line ln eid = Abort (ParseError ln line reason))
   \<or> (\<exists>e. \<forall>ln eid. parse_step strict line ln eid = Append (e\<lparr>ID := eid\<rparr>))"
proof (cases "TrimSpace line = [] \<or> (HasPrefix (TrimSpace line) [35] \<and> \<not> isDisabledEntry line)")
  case True
  then show ?thesis by (simp add: parse_step_def Let_def)
next
  case False
  then have step: "\<And>ln eid. parse_step strict line ln eid =
      (case parseLine line ln eid of
         LineFailed err \<Rightarrow> if strict then Abort err else Skip
       | NoEntry \<Rightarrow> Skip
       | Parsed entry \<Rightarrow> Append entry)"
    by (auto simp add: parse_step_def Let_def)
  from parseLine_cases [of line 0 0] show ?thesis
  proof (elim disjE exE conjE)
    assume "parseLine line 0 0 = NoEntry"
    then have "\<And>ln eid. parseLine line ln eid = NoEntry"
      by (simp add: parseLine_def Let_def split: if_splits option.splits list.splits)
    then show ?thesis using step by simp
  next
    fix reason
    assume "\<forall>ln' eid'. parseLine line ln' eid' = LineFailed (ParseError ln' line reason)"
    then show ?thesis using step by (cases strict) auto
  next
    fix e
    assume "\<forall>ln' eid'. parseLine line ln' eid' = Parsed (e\<lparr>ID := eid'\<rparr>)"
    then have "\<forall>ln eid. parse_step strict line ln eid = Append (e\<lparr>ID := eid\<rparr>)"
      using step by simp
    then show ?thesis by blast
  qed
qed



lemma parse_step_not_Append:
  assumes "parse_step strict line ln eid \<noteq> Append e" "parse_step strict line ln eid = Skip"
  shows "parse_step strict line ln' eid' = Skip"
  using parse_step_cases [of strict line] assms by (metis step.distinct(1) step.distinct(5))

lemma match_hash_one_token:
  "FindStringSubmatch entryRegex 4 (asc ''# 1.2.3.4  '')
     = Some [asc ''# 1.2.3.4  '', asc ''# '', asc ''1.2.3.4'', asc '' '', []]"
  by (simp add: regex_eval asc_def)

lemma match_hash_note:
  "FindStringSubmatch entryRegex 4 (asc ''# note  '')
     = Some [asc ''# note  '', asc ''# '', asc ''note'', asc '' '', []]"
  by (simp add: regex_eval asc_def)

lemma isValidIP_1234: "isValidIP [49, 46, 50, 46, 51, 46, 52]"
  by (simp add: parser_eval)

lemma isValidIP_note: "\<not> isValidIP [110, 111, 116, 101]"
  by (simp add: parser_eval)

text \<open>
  C4.  The line \<open># 1.2.3.4\<close> followed by two spaces starts with \<open>#\<close> and its remainder holds a
  single token, so it has no hostname token and the claim calls it purely a comment.  The loop
  body does not pass over it: in both modes it appends a disabled entry without names, which
  takes an id.  The comment \<open># note\<close> followed by two spaces aborts the strict parse.  In both
  lines the pattern's group for the hostnames, \<open>(.+?)\<close>, has matched a single space.
\<close>

theorem parse_step_single_token_comment:
  "Fields (asc '' 1.2.3.4  '') = [asc ''1.2.3.4'']
   \<and> parse_step True (asc ''# 1.2.3.4  '') 1 1
     = Append \<lparr>ID = 1, IP = asc ''1.2.3.4'', Names = [], Comment = [], Disabled = True,
               Raw = asc ''# 1.2.3.4  ''\<rparr>
   \<and> parse_step False (asc ''# 1.2.3.4  '') 1 1
     = Append \<lparr>ID = 1, IP = asc ''1.2.3.4'', Names = [], Comment = [], Disabled = True,
               Raw = asc ''# 1.2.3.4  ''\<rparr>
   \<and> Fields (asc '' note  '') = [asc ''note'']
   \<and> parse_step True (asc ''# note  '') 1 1
     = Abort (ParseError 1 (asc ''# note  '') (asc ''invalid IP address: note''))"
proof -
  have a: "parse_step strict (asc ''# 1.2.3.4  '') 1 1
     = Append \<lparr>ID = 1, IP = asc ''1.2.3.4'', Names = [], Comment = [], Disabled = True,
               Raw = asc ''# 1.2.3.4  ''\<rparr>" for strict
    using match_hash_one_token isValidIP_1234 by (simp add: step_eval asc_def)
  have b: "parse_step True (asc ''# note  '') 1 1
     = Abort (ParseError 1 (asc ''# note  '') (asc ''invalid IP address: note''))"
    using match_hash_note isValidIP_note by (simp add: step_eval asc_def)
  have c: "Fields (asc '' 1.2.3.4  '') = [asc ''1.2.3.4'']"
    by (simp add: Fields_def isSpace_def asc_def)
  have d: "Fields (asc '' note  '') = [asc ''note'']"
    by (simp add: Fields_def isSpace_def asc_def)
  from a [of True] a [of False] b c d show ?thesis by blast
qed


section \<open>Lenient parsing\<close>










section \<open>What a pattern can consume\<close>

lemma ms_consumes:
  "m \<in> set (ms r b s) \<Longrightarrow> \<exists>pre. s = pre @ snd m \<and> (\<forall>x \<in> set pre. alpha r x)"
proof (induction r b s arbitrary: m rule: ms.induct)
  case (1 p b s)
  then show ?case by (cases s) (auto split: if_splits)
next
  case (2 b s)
  then show ?case by simp
next
  case (3 b s)
  then show ?case by (simp split: if_splits)
next
  case (4 b s)
  then show ?case by (simp split: if_splits)
next
  case (5 r1 r2 b s)
  from "5.prems" obtain m1 m2 where m1: "m1 \<in> set (ms r1 b s)"
    and m2: "m2 \<in> set (ms r2 (b \<and> length (snd m1) = length s) (snd m1))"
    and m: "m = (fst m2 @ fst m1, snd m2)"
    by auto
  from "5.IH"(1) [OF m1] obtain p1 where p1: "s = p1 @ snd m1" "\<forall>x \<in> set p1. alpha r1 x" by blast
  from "5.IH"(2) [OF m1 m2] obtain p2 where p2: "snd m1 = p2 @ snd m2" "\<forall>x \<in> set p2. alpha r2 x" by blast
  have "s = (p1 @ p2) @ snd m" using p1(1) p2(1) m by simp
  moreover have "\<forall>x \<in> set (p1 @ p2). alpha (Seq r1 r2) x" using p1(2) p2(2) by auto
  ultimately show ?case by blast
next
  case (6 r1 r2 b s)
  from "6.prems" have "m \<in> set (ms r1 b s) \<or> m \<in> set (ms r2 b s)" by simp
  then show ?case
  proof
    assume "m \<in> set (ms r1 b s)"
    from "6.IH"(1) [OF this] obtain pre where "s = pre @ snd m" "\<forall>x \<in> set pre. alpha r1 x" by blast
    then have "s = pre @ snd m \<and> (\<forall>x \<in> set pre. alpha (Alt r1 r2) x)" by simp
    then show ?thesis by blast
  next
    assume "m \<in> set (ms r2 b s)"
    from "6.IH"(2) [OF this] obtain pre where "s = pre @ snd m" "\<forall>x \<in> set pre. alpha r2 x" by blast
    then have "s = pre @ snd m \<and> (\<forall>x \<in> set pre. alpha (Alt r1 r2) x)" by simp
    then show ?thesis by blast
  qed
next
  case (7 r b s)
  from "7.prems" have "m \<in> set (ms r b s) \<or> m = ([], s)" by auto
  then show ?case
  proof
    assume "m \<in> set (ms r b s)"
    from "7.IH" [OF this] obtain pre where "s = pre @ snd m" "\<forall>x \<in> set pre. alpha r x" by blast
    then have "s = pre @ snd m \<and> (\<forall>x \<in> set pre. alpha (Opt r) x)" by simp
    then show ?thesis by blast
  next
    assume "m = ([], s)"
    then have "s = [] @ snd m \<and> (\<forall>x \<in> set []. alpha (Opt r) x)" by simp
    then show ?thesis by blast
  qed
next
  case (8 r b s)
  show ?case
  proof (cases "m = ([], s)")
    case True
    then show ?thesis by simp
  next
    case False
    with "8.prems" obtain m1 m2 where m1: "m1 \<in> set (ms r b s)"
      and lt: "length (snd m1) < length s"
      and m2: "m2 \<in> set (ms (Star r) False (snd m1))"
      and m: "m = (fst m2 @ fst m1, snd m2)"
      by (auto simp: ms.simps(8) [of r b s] split: if_splits)
    from "8.IH"(1) [OF m1] obtain p1 where p1: "s = p1 @ snd m1" "\<forall>x \<in> set p1. alpha r x" by blast
    from "8.IH"(2) [OF m1 lt m2] obtain p2 where p2: "snd m1 = p2 @ snd m2" "\<forall>x \<in> set p2. alpha (Star r) x" by blast
    have "s = (p1 @ p2) @ snd m" using p1(1) p2(1) m by simp
    moreover have "\<forall>x \<in> set (p1 @ p2). alpha (Star r) x" using p1(2) p2(2) by auto
    ultimately show ?thesis by blast
  qed
next
  case (9 r b s)
  show ?case
  proof (cases "m = ([], s)")
    case True
    then show ?thesis by simp
  next
    case False
    with "9.prems" obtain m1 m2 where m1: "m1 \<in> set (ms r b s)"
      and lt: "length (snd m1) < length s"
      and m2: "m2 \<in> set (ms (LazyStar r) False (snd m1))"
      and m: "m = (fst m2 @ fst m1, snd m2)"
      by (auto simp: ms.simps(9) [of r b s] split: if_splits)
    from "9.IH"(1) [OF m1] obtain p1 where p1: "s = p1 @ snd m1" "\<forall>x \<in> set p1. alpha r x" by blast
    from "9.IH"(2) [OF m1 lt m2] obtain p2 where p2: "snd m1 = p2 @ snd m2" "\<forall>x \<in> set p2. alpha (LazyStar r) x" by blast
    have "s = (p1 @ p2) @ snd m" using p1(1) p2(1) m by simp
    moreover have "\<forall>x \<in> set (p1 @ p2). alpha (LazyStar r) x" using p1(2) p2(2) by auto
    ultimately show ?thesis by blast
  qed
next
  case (10 n r b s)
  from "10.prems" obtain m' where m': "m' \<in> set (ms r b s)" and sm: "snd m = snd m'" by auto
  from "10.IH" [OF m'] obtain pre where "s = pre @ snd m'" "\<forall>x \<in> set pre. alpha r x" by blast
  then have "s = pre @ snd m \<and> (\<forall>x \<in> set pre. alpha (Group n r) x)" using sm by simp
  then show ?case by blast
qed

lemma ms_Seq_Eol:
  "m \<in> set (ms (Seq r Eol) b s) \<Longrightarrow> snd m = []"
  by (auto split: if_splits)

lemma ms_Seq_last:
  assumes "m \<in> set (ms (Seq r1 r2) b s)" "\<And>b' s' m'. m' \<in> set (ms r2 b' s') \<Longrightarrow> snd m' = []"
  shows "snd m = []"
  using assms by auto

lemma ms_Bol_False: "ms (Seq Bol r) False s = []"
  by simp

lemma find_from_Bol_False: "find_from (Seq Bol r) False s = None"
  by (induction s) simp_all

lemma find_from_Bol:
  "find_from (Seq Bol r) True s =
     (case ms (Seq Bol r) True s of [] \<Rightarrow> None | m # _ \<Rightarrow> Some (take (length s - length (snd m)) s, fst m))"
  by (cases s) (simp_all add: find_from_Bol_False split: list.splits)

lemma alpha_UpTo: "alpha (UpTo r n) c \<Longrightarrow> alpha r c"
  by (induction n) auto

lemma hostnameRegex_chars:
  assumes "MatchString hostnameRegex h"
  shows "\<forall>c \<in> set h. alnum c \<or> c = 45 \<or> c = 46"
proof -
  define r3 where "r3 = Seq (Star (Group 2 (Seq (re_chr 46) (Seq re_alnum
                (Opt (Group 3 (Seq (UpTo re_alnum_hyphen 61) re_alnum))))))) Eol"
  define r2 where "r2 = Seq (Opt (Group 1 (Seq (UpTo re_alnum_hyphen 61) re_alnum))) r3"
  define r1 where "r1 = Seq re_alnum r2"
  have r: "hostnameRegex = Seq Bol r1"
    by (simp add: hostnameRegex_def r1_def r2_def r3_def)
  have l3: "snd m' = []" if "m' \<in> set (ms r3 b' s')" for b' s' m'
    using that unfolding r3_def by (rule ms_Seq_Eol)
  have l2: "snd m' = []" if "m' \<in> set (ms r2 b' s')" for b' s' m'
    using that l3 unfolding r2_def by (rule ms_Seq_last)
  have l1: "snd m' = []" if "m' \<in> set (ms r1 b' s')" for b' s' m'
    using that l2 unfolding r1_def by (rule ms_Seq_last)
  from assms have "ms hostnameRegex True h \<noteq> []"
    unfolding MatchString_def r find_from_Bol by (auto split: list.splits)
  then obtain m where m: "m \<in> set (ms hostnameRegex True h)"
    by (cases "ms hostnameRegex True h") auto
  then have "snd m = []" unfolding r using l1 by (rule ms_Seq_last)
  with ms_consumes [OF m] have "\<forall>x \<in> set h. alpha hostnameRegex x" by auto
  moreover have "alpha hostnameRegex x \<Longrightarrow> alnum x \<or> x = 45 \<or> x = 46" for x
    unfolding hostnameRegex_def re_alnum_def re_alnum_hyphen_def re_chr_def
    by (auto dest: alpha_UpTo)
  ultimately show ?thesis by blast
qed

lemma blen_empty: "blen s = 0 \<longleftrightarrow> s = []"
  by (induction s) (auto simp: blen_def rune_len_def)

lemma isValidHostname_chars:
  assumes "isValidHostname h"
  shows "h \<noteq> []" and "\<forall>c \<in> set h. alnum c \<or> c = 45 \<or> c = 46"
proof -
  show "h \<noteq> []" using assms by (auto simp: isValidHostname_def blen_def)
  show "\<forall>c \<in> set h. alnum c \<or> c = 45 \<or> c = 46"
  proof (cases "h = asc ''localhost''")
    case True
    then show ?thesis by (simp add: asc_def alnum_def)
  next
    case False
    then have "MatchString hostnameRegex h" using assms by (simp add: isValidHostname_def split: if_splits)
    then show ?thesis by (rule hostnameRegex_chars)
  qed
qed


section \<open>The groups of an IPv4 address\<close>















section \<open>The characters of a valid address\<close>

lemma split_from_nonempty: "split_from sep cur s \<noteq> []"
  by (induction sep cur s rule: split_from.induct) auto

lemma Join_Cons: "ys \<noteq> [] \<Longrightarrow> Join (x # ys) sep = x @ sep @ Join ys sep"
  by (cases ys) simp_all

lemma Join_split_from:
  "sep \<noteq> [] \<Longrightarrow> Join (split_from sep cur s) sep = cur @ s"
proof (induction sep cur s rule: split_from.induct)
  case (1 sep cur)
  show ?case by simp
next
  case (2 sep cur c cs)
  show ?case
  proof (cases "HasPrefix (c # cs) sep")
    case True
    then have tk: "take (length sep) (c # cs) = sep" by (simp add: HasPrefix_def)
    have "Join (split_from sep cur (c # cs)) sep
        = cur @ sep @ Join (split_from sep [] (drop (length sep) (c # cs))) sep"
      using True "2.prems" by (simp add: Join_Cons split_from_nonempty)
    also have "\<dots> = cur @ sep @ drop (length sep) (c # cs)"
      using "2.IH"(1) True "2.prems" by simp
    also have "\<dots> = cur @ (take (length sep) (c # cs) @ drop (length sep) (c # cs))"
      by (simp only: tk)
    finally show ?thesis by (simp only: append_take_drop_id)
  next
    case False
    then show ?thesis using "2.IH"(2) "2.prems" by simp
  qed
qed

lemma Join_Split: "sep \<noteq> [] \<Longrightarrow> Join (Split s sep) sep = s"
  by (simp add: Split_def Join_split_from)

lemma set_Join: "c \<in> set (Join xs sep) \<Longrightarrow> c \<in> set sep \<or> (\<exists>x \<in> set xs. c \<in> set x)"
  by (induction xs sep rule: Join.induct) auto

lemma set_Split:
  assumes "sep \<noteq> []" "c \<in> set s"
  shows "c \<in> set sep \<or> (\<exists>x \<in> set (Split s sep). c \<in> set x)"
  using set_Join [of c "Split s sep" sep] assms by (simp add: Join_Split)

lemma octet_num_digits:
  "octet_num part num = Some n \<Longrightarrow> \<forall>c \<in> set part. 48 \<le> c \<and> c \<le> 57"
  by (induction part arbitrary: num) (auto split: if_splits)

lemma valid_octet_chars:
  assumes "valid_octet part"
  shows "part \<noteq> []" and "\<forall>c \<in> set part. 48 \<le> c \<and> c \<le> 57"
proof -
  show "part \<noteq> []" using assms by (auto simp: valid_octet_def blen_def)
  from assms obtain n where "octet_num part 0 = Some n"
    by (auto simp: valid_octet_def split: if_splits option.splits)
  then show "\<forall>c \<in> set part. 48 \<le> c \<and> c \<le> 57" by (rule octet_num_digits)
qed

lemma isValidIPv6Part_chars:
  assumes "isValidIPv6Part part"
  shows "part \<noteq> []"
    and "\<forall>c \<in> set part. (48 \<le> c \<and> c \<le> 57) \<or> (97 \<le> c \<and> c \<le> 102) \<or> (65 \<le> c \<and> c \<le> 70)"
proof -
  show "part \<noteq> []" using assms by (auto simp: isValidIPv6Part_def blen_def)
  show "\<forall>c \<in> set part. (48 \<le> c \<and> c \<le> 57) \<or> (97 \<le> c \<and> c \<le> 102) \<or> (65 \<le> c \<and> c \<le> 70)"
    using assms by (auto simp: isValidIPv6Part_def list_all_iff split: if_splits)
qed

lemma Contains_nonempty: "Contains s sub \<Longrightarrow> sub \<noteq> [] \<Longrightarrow> s \<noteq> []"
  by (cases s) auto

lemma Join_nonempty: "xs \<noteq> [] \<Longrightarrow> hd xs \<noteq> [] \<Longrightarrow> Join xs sep \<noteq> []"
  by (induction xs sep rule: Join.induct) auto

lemma hex_parts_chars:
  assumes "list_all isValidIPv6Part (Split p [58])" "c \<in> set p"
  shows "(48 \<le> c \<and> c \<le> 57) \<or> (97 \<le> c \<and> c \<le> 102) \<or> (65 \<le> c \<and> c \<le> 70) \<or> c = 58"
proof -
  from set_Split [of "[58]" c p] assms(2)
  have "c = 58 \<or> (\<exists>x \<in> set (Split p [58]). c \<in> set x)" by simp
  then show ?thesis
  proof
    assume "c = 58" then show ?thesis by simp
  next
    assume "\<exists>x \<in> set (Split p [58]). c \<in> set x"
    then obtain x where x: "x \<in> set (Split p [58])" "c \<in> set x" by blast
    then have "isValidIPv6Part x" using assms(1) by (simp add: list_all_iff)
    from isValidIPv6Part_chars(2) [OF this] x(2) show ?thesis by blast
  qed
qed

lemma isValidIPv6_chars:
  assumes "isValidIPv6 ip"
  shows "ip \<noteq> []"
    and "\<forall>c \<in> set ip. (48 \<le> c \<and> c \<le> 57) \<or> (97 \<le> c \<and> c \<le> 102) \<or> (65 \<le> c \<and> c \<le> 70) \<or> c = 58"
proof -
  have both: "ip \<noteq> [] \<and> (\<forall>c \<in> set ip. (48 \<le> c \<and> c \<le> 57) \<or> (97 \<le> c \<and> c \<le> 102) \<or> (65 \<le> c \<and> c \<le> 70) \<or> c = 58)"
  proof (cases "Contains ip [58, 58]")
    case True
    then have ne: "ip \<noteq> []" by (rule Contains_nonempty) simp
    from assms True have len: "length (Split ip [58, 58]) = 2"
      by (auto simp: isValidIPv6_def Let_def split: if_splits)
    then obtain l r where lr: "Split ip [58, 58] = [l, r]"
      by (cases "Split ip [58, 58]") (auto simp: length_Suc_conv)
    have ip: "ip = l @ [58, 58] @ r"
      using Join_Split [of "[58, 58]" ip] lr by simp
    from assms True len lr
    have all: "list_all isValidIPv6Part ((if l \<noteq> [] then Split l [58] else []) @ (if r \<noteq> [] then Split r [58] else []))"
      by (auto simp: isValidIPv6_def Let_def split: if_splits)
    have part: "(48 \<le> c \<and> c \<le> 57) \<or> (97 \<le> c \<and> c \<le> 102) \<or> (65 \<le> c \<and> c \<le> 70) \<or> c = 58"
      if "c \<in> set p" "p = l \<or> p = r" for c p
    proof -
      have "p \<noteq> []" using that(1) by auto
      then have "list_all isValidIPv6Part (Split p [58])" using all that(2) by (auto split: if_splits)
      then show ?thesis using that(1) by (rule hex_parts_chars)
    qed
    have "\<forall>c \<in> set ip. (48 \<le> c \<and> c \<le> 57) \<or> (97 \<le> c \<and> c \<le> 102) \<or> (65 \<le> c \<and> c \<le> 70) \<or> c = 58"
    proof
      fix c assume "c \<in> set ip"
      then have "c \<in> set l \<or> c = 58 \<or> c \<in> set r" unfolding ip by auto
      then show "(48 \<le> c \<and> c \<le> 57) \<or> (97 \<le> c \<and> c \<le> 102) \<or> (65 \<le> c \<and> c \<le> 70) \<or> c = 58"
        using part by blast
    qed
    then show ?thesis using ne by simp
  next
    case False
    from assms False have len: "length (Split ip [58]) = 8" and all: "list_all isValidIPv6Part (Split ip [58])"
      by (auto simp: isValidIPv6_def Let_def split: if_splits)
    have chars: "\<forall>c \<in> set ip. (48 \<le> c \<and> c \<le> 57) \<or> (97 \<le> c \<and> c \<le> 102) \<or> (65 \<le> c \<and> c \<le> 70) \<or> c = 58"
      using hex_parts_chars [OF all] by blast
    have "Split ip [58] \<noteq> []" using len by auto
    moreover have "hd (Split ip [58]) \<noteq> []"
    proof -
      have "hd (Split ip [58]) \<in> set (Split ip [58])" using \<open>Split ip [58] \<noteq> []\<close> by simp
      then have "isValidIPv6Part (hd (Split ip [58]))" using all by (simp add: list_all_iff)
      then show ?thesis by (rule isValidIPv6Part_chars(1))
    qed
    ultimately have "Join (Split ip [58]) [58] \<noteq> []" by (rule Join_nonempty)
    then have "ip \<noteq> []" by (simp add: Join_Split)
    then show ?thesis using chars by simp
  qed
  show "ip \<noteq> []" using both by simp
  show "\<forall>c \<in> set ip. (48 \<le> c \<and> c \<le> 57) \<or> (97 \<le> c \<and> c \<le> 102) \<or> (65 \<le> c \<and> c \<le> 70) \<or> c = 58"
    using both by simp
qed

lemma isValidIP_chars:
  assumes "isValidIP ip"
  shows "ip \<noteq> []"
    and "\<forall>c \<in> set ip. (48 \<le> c \<and> c \<le> 57) \<or> (97 \<le> c \<and> c \<le> 102) \<or> (65 \<le> c \<and> c \<le> 70)
            \<or> c = 58 \<or> c = 46"
proof -
  have both: "ip \<noteq> [] \<and> (\<forall>c \<in> set ip. (48 \<le> c \<and> c \<le> 57) \<or> (97 \<le> c \<and> c \<le> 102) \<or> (65 \<le> c \<and> c \<le> 70)
            \<or> c = 58 \<or> c = 46)"
  proof (cases "length (Split ip [46]) = 4")
    case False
    then have "isValidIPv6 ip" using assms by (simp add: isValidIP_def Let_def)
    from isValidIPv6_chars [OF this] show ?thesis by blast
  next
    case True
    then have all: "list_all valid_octet (Split ip [46])" using assms by (simp add: isValidIP_def Let_def)
    have chars: "(48 \<le> c \<and> c \<le> 57) \<or> c = 46" if "c \<in> set ip" for c
    proof -
      from set_Split [of "[46]" c ip] that
      have "c = 46 \<or> (\<exists>x \<in> set (Split ip [46]). c \<in> set x)" by simp
      then show ?thesis
      proof
        assume "c = 46" then show ?thesis by simp
      next
        assume "\<exists>x \<in> set (Split ip [46]). c \<in> set x"
        then obtain x where x: "x \<in> set (Split ip [46])" "c \<in> set x" by blast
        then have "valid_octet x" using all by (simp add: list_all_iff)
        from valid_octet_chars(2) [OF this] x(2) show ?thesis by blast
      qed
    qed
    have ne0: "Split ip [46] \<noteq> []" using True by auto
    moreover have "hd (Split ip [46]) \<noteq> []"
    proof -
      have "hd (Split ip [46]) \<in> set (Split ip [46])" using ne0 by simp
      then have "valid_octet (hd (Split ip [46]))" using all by (simp add: list_all_iff)
      then show ?thesis by (rule valid_octet_chars(1))
    qed
    ultimately have "Join (Split ip [46]) [46] \<noteq> []" by (rule Join_nonempty)
    then have "ip \<noteq> []" by (simp add: Join_Split)
    then show ?thesis using chars by blast
  qed
  show "ip \<noteq> []" using both by simp
  show "\<forall>c \<in> set ip. (48 \<le> c \<and> c \<le> 57) \<or> (97 \<le> c \<and> c \<le> 102) \<or> (65 \<le> c \<and> c \<le> 70)
            \<or> c = 58 \<or> c = 46" using both by simp
qed


section \<open>Verifying a loaded file\<close>

lemma seen_append_keys: "fst ` set (seen_append name n m) = insert name (fst ` set m)"
  by (induction name n m rule: seen_append.induct) auto

lemma seen_append_distinct: "distinct (map fst m) \<Longrightarrow> distinct (map fst (seen_append name n m))"
proof (induction name n m rule: seen_append.induct)
  case (1 name n)
  show ?case by simp
next
  case (2 name n k v rest)
  then show ?case using seen_append_keys [of name n rest] by (auto simp: image_iff)
qed

lemma seen_append_lookup:
  "lookup (seen_append name n m) k = (if k = name then lookup m k @ [n] else lookup m k)"
  by (induction name n m rule: seen_append.induct) (auto simp: lookup_def)

lemma names_loop_valid:
  assumes "\<forall>x \<in> set names. isValidHostname x"
  shows "names_loop names n (issues, m) = (issues, fold (\<lambda>x. seen_append x n) names m)"
  using assms by (induction names arbitrary: m) simp_all

lemma fold_seen_distinct:
  "distinct (map fst m) \<Longrightarrow> distinct (map fst (fold (\<lambda>x. seen_append x n) names m))"
  by (induction names arbitrary: m) (simp_all add: seen_append_distinct)

lemma fold_seen_keys:
  "fst ` set (fold (\<lambda>x. seen_append x n) names m) = fst ` set m \<union> set names"
  by (induction names arbitrary: m) (auto simp: seen_append_keys)

lemma fold_seen_lookup:
  "lookup (fold (\<lambda>x. seen_append x n) names m) k = lookup m k @ replicate (count_list names k) n"
  by (induction names arbitrary: m) (simp_all add: seen_append_lookup replicate_app_Cons_same)

lemma entries_loop_parsed:
  assumes "\<forall>e \<in> set es. isValidIP (IP e) \<and> (\<forall>x \<in> set (Names e). isValidHostname x)"
  shows "entries_loop es (issues, m)
     = (issues @ map (\<lambda>e. issue_invalid_entry (ID e)) (filter (\<lambda>e. Names e = []) es),
        fold (\<lambda>e. fold (\<lambda>x. seen_append x (ID e)) (Names e)) es m)"
  using assms
proof (induction es arbitrary: issues m)
  case Nil
  show ?case by simp
next
  case (Cons e es)
  have ip: "isValidIP (IP e)" and hn: "\<forall>x \<in> set (Names e). isValidHostname x"
    using Cons.prems by simp_all
  have rest: "\<forall>e \<in> set es. isValidIP (IP e) \<and> (\<forall>x \<in> set (Names e). isValidHostname x)"
    using Cons.prems by simp
  have v: "IsValid e \<longleftrightarrow> Names e \<noteq> []"
    using isValidIP_chars(1) [OF ip] by (simp add: IsValid_def)
  show ?case
  proof (cases "Names e = []")
    case True
    then show ?thesis using v Cons.IH [OF rest] by simp
  next
    case False
    then show ?thesis using v ip Cons.IH [OF rest] names_loop_valid [OF hn] by simp
  qed
qed

lemma seen_after_distinct:
  "distinct (map fst m) \<Longrightarrow>
   distinct (map fst (fold (\<lambda>e. fold (\<lambda>x. seen_append x (ID e)) (Names e)) es m))"
  by (induction es arbitrary: m) (simp_all add: fold_seen_distinct)

lemma seen_after_keys:
  "fst ` set (fold (\<lambda>e. fold (\<lambda>x. seen_append x (ID e)) (Names e)) es m)
   = fst ` set m \<union> (\<Union>e \<in> set es. set (Names e))"
  by (induction es arbitrary: m) (auto simp: fold_seen_keys)

lemma seen_after_lookup:
  "lookup (fold (\<lambda>e. fold (\<lambda>x. seen_append x (ID e)) (Names e)) es m) k = lookup m k @ owners es k"
  by (induction es arbitrary: m) (simp_all add: owners_def fold_seen_lookup)

lemma duplicates_loop_map:
  "duplicates_loop m issues
     = issues @ map (\<lambda>p. issue_duplicate (fst p) (snd p)) (filter (\<lambda>p. length (snd p) > 1) m)"
  by (induction m issues rule: duplicates_loop.induct) auto

lemma parseLine_Parsed_valid:
  assumes "parseLine line ln eid = Parsed e"
  shows "isValidIP (IP e) \<and> (\<forall>x \<in> set (Names e). isValidHostname x)"
proof (cases "TrimSpace line = []")
  case True
  then show ?thesis using assms by (simp add: parseLine_def)
next
  case ne: False
  show ?thesis
  proof (cases "FindStringSubmatch entryRegex 4 line")
    case None
    then show ?thesis using ne assms by (simp add: parseLine_def)
  next
    case (Some m)
    have len: "length m = 5" using FindStringSubmatch_length [OF Some] by simp
    show ?thesis
    proof (cases "isValidIP (TrimSpace (m ! 2))")
      case False
      then show ?thesis using ne Some len assms by (simp add: parseLine_def Let_def)
    next
      case ip: True
      show ?thesis
      proof (cases "filter (\<lambda>hostname. \<not> isValidHostname hostname) (Fields (TrimSpace (m ! 3)))")
        case Nil
        then have "\<forall>x \<in> set (Fields (TrimSpace (m ! 3))). isValidHostname x"
          by (simp add: filter_empty_conv)
        moreover have "e = \<lparr>ID = eid, IP = TrimSpace (m ! 2), Names = Fields (TrimSpace (m ! 3)),
                   Comment = TrimSpace (m ! 4), Disabled = (TrimSpace (m ! 1) \<noteq> []), Raw = line\<rparr>"
          using ne Some len ip Nil assms by (simp add: parseLine_def Let_def)
        ultimately show ?thesis using ip by simp
      next
        case (Cons h hs)
        then show ?thesis using ne Some len ip assms by (simp add: parseLine_def Let_def)
      qed
    qed
  qed
qed

lemma parse_step_Append_valid:
  assumes "parse_step strict line ln eid = Append e"
  shows "isValidIP (IP e) \<and> (\<forall>x \<in> set (Names e). isValidHostname x)"
proof -
  have "parseLine line ln eid = Parsed e"
    using assms by (auto simp: parse_step_def Let_def split: if_splits line_result.splits)
  then show ?thesis by (rule parseLine_Parsed_valid)
qed

lemma parse_loop_valid:
  assumes "parse_loop strict ts ln eid es = Inr es'"
    and "\<forall>e \<in> set es. isValidIP (IP e) \<and> (\<forall>x \<in> set (Names e). isValidHostname x)"
  shows "\<forall>e \<in> set es'. isValidIP (IP e) \<and> (\<forall>x \<in> set (Names e). isValidHostname x)"
  using assms
proof (induction ts arbitrary: ln eid es)
  case Nil
  then show ?case by simp
next
  case (Cons t ts)
  show ?case
  proof (cases t)
    case TooLong
    then show ?thesis using Cons.prems by simp
  next
    case (Line line)
    show ?thesis
    proof (cases "parse_step strict line (ln + 1) eid")
      case (Abort err)
      then show ?thesis using Cons.prems Line by simp
    next
      case Skip
      then have "parse_loop strict ts (ln + 1) eid es = Inr es'" using Cons.prems(1) Line by simp
      from Cons.IH [OF this Cons.prems(2)] show ?thesis .
    next
      case (Append e)
      then have a: "parse_loop strict ts (ln + 1) (eid + 1) (es @ [e]) = Inr es'"
        using Cons.prems(1) Line by simp
      have "\<forall>e \<in> set (es @ [e]). isValidIP (IP e) \<and> (\<forall>x \<in> set (Names e). isValidHostname x)"
        using Cons.prems(2) parse_step_Append_valid [OF Append] by auto
      from Cons.IH [OF a this] show ?thesis .
    qed
  qed
qed

lemma Parse_valid:
  assumes "Parse strict input = Inr hostsFile"
  shows "\<forall>e \<in> set (Entries hostsFile). isValidIP (IP e) \<and> (\<forall>x \<in> set (Names e). isValidHostname x)"
proof -
  from assms obtain es where es: "parse_loop strict (ScanLines input) 0 1 [] = Inr es"
    and hf: "hostsFile = \<lparr>Entries = es, Path = []\<rparr>"
    by (auto simp: Parse_def split: sum.splits)
  from parse_loop_valid [OF es] show ?thesis using hf by simp
qed

lemma Load_files: "files (snd (Load s env w)) = files w"
  by (simp add: Load_def Let_def called_def split: option.splits sum.splits)

lemma Load_valid:
  assumes "fst (Load s env w) = Inr hostsFile"
  shows "\<forall>e \<in> set (Entries hostsFile). isValidIP (IP e) \<and> (\<forall>x \<in> set (Names e). isValidHostname x)"
proof -
  from assms obtain hf0 content where "Parse (s_strict s) content = Inr hf0"
    and "hostsFile = hf0\<lparr>Path := s_path s\<rparr>"
    by (auto simp: Load_def Let_def split: option.splits if_splits sum.splits)
  then show ?thesis using Parse_valid [of "s_strict s" content hf0] by simp
qed

lemma rearranged_distinct_keys:
  assumes "set ys = set xs" "length ys = length xs" "distinct (map fst xs)"
  shows "distinct (map fst ys)"
proof -
  have dx: "distinct xs" using assms(3) by (rule distinct_map [THEN iffD1, THEN conjunct1])
  have inj: "inj_on fst (set xs)" using assms(3) by (rule distinct_map [THEN iffD1, THEN conjunct2])
  have "card (set ys) = length ys"
    using dx assms(1,2) by (simp add: distinct_card)
  then have "distinct ys" by (rule card_distinct)
  then show ?thesis using inj assms(1) by (simp add: distinct_map)
qed

lemma owners_member:
  "e \<in> set es \<Longrightarrow> k \<in> set (Names e) \<Longrightarrow> ID e \<in> set (owners es k)"
  by (auto simp: owners_def count_list_0_iff)

lemma owners_length:
  "length (filter (\<lambda>e. k \<in> set (Names e)) es) \<le> length (owners es k)"
proof (induction es)
  case Nil
  show ?case by (simp add: owners_def)
next
  case (Cons e es)
  have "k \<in> set (Names e) \<Longrightarrow> 1 \<le> count_list (Names e) k"
    using count_list_0_iff [of "Names e" k] by auto
  then show ?case using Cons by (auto simp: owners_def)
qed

lemma Verify_files: "files (snd (Verify s env range_order w)) = files w"
proof (cases "Load s env w")
  case (Pair r w1)
  have "files w1 = files w" using Load_files [of s env w] Pair by simp
  then show ?thesis using Pair
    by (cases r) (simp_all add: Verify_def split: prod.splits)
qed

lemma owners_nonempty:
  "owners es k \<noteq> [] \<Longrightarrow> \<exists>e \<in> set es. k \<in> set (Names e)"
  by (auto simp: owners_def count_list_0_iff)

lemma distinct_singleton_set: "distinct xs \<Longrightarrow> set xs = {a} \<Longrightarrow> xs = [a]"
  by (cases xs) (auto simp: subset_singleton_iff)

text \<open>
  C7.  When the file loads, \<open>Verify\<close> returns the issues of the entries without names, followed
  by one duplicate issue for each hostname under which two or more ids were recorded, and by
  nothing else: the hostnames reported are exactly those, each once, in the order in which the
  map of seen names is visited, whatever that order is.  The issue of a hostname is the text
  \<open>duplicate hostname 'name' found in entries: [ids]\<close>, where the ids are those of the entries
  that list the hostname, in file order, one for each time an entry lists it.  So every hostname
  that two or more entries list is reported once, with the id of every entry that lists it.  The
  file system after \<open>Verify\<close> holds the same files with the same contents as before.
\<close>

theorem Verify_reports_each_duplicate_once:
  assumes loaded: "fst (Load s env w) = Inr hostsFile"
    and order: "\<forall>m. set (range_order m) = set m \<and> length (range_order m) = length m"
  shows "\<exists>names.
           fst (Verify s env range_order w)
             = Inr (map (\<lambda>e. issue_invalid_entry (ID e)) (filter (\<lambda>e. Names e = []) (Entries hostsFile))
                    @ map (\<lambda>name. asc ''duplicate hostname '' @ [39] @ name @ [39]
                              @ asc '' found in entries: '' @ [91]
                              @ Join (map (\<lambda>n. itoa (sint n)) (owners (Entries hostsFile) name)) [32]
                              @ [93]) names)
           \<and> distinct names
           \<and> set names = {name. 2 \<le> length (owners (Entries hostsFile) name)}
           \<and> (\<forall>name. 2 \<le> length (filter (\<lambda>e. name \<in> set (Names e)) (Entries hostsFile)) \<longrightarrow>
                 name \<in> set names
                 \<and> (\<forall>e \<in> set (Entries hostsFile). name \<in> set (Names e) \<longrightarrow>
                       ID e \<in> set (owners (Entries hostsFile) name)))
           \<and> files (snd (Verify s env range_order w)) = files w"
proof -
  let ?es = "Entries hostsFile"
  let ?text = "\<lambda>name. asc ''duplicate hostname '' @ [39] @ name @ [39]
                              @ asc '' found in entries: '' @ [91]
                              @ Join (map (\<lambda>n. itoa (sint n)) (owners (Entries hostsFile) name)) [32]
                              @ [93]"
  define m where "m = fold (\<lambda>e. fold (\<lambda>x. seen_append x (ID e)) (Names e)) ?es []"
  define inv where "inv = map (\<lambda>e. issue_invalid_entry (ID e)) (filter (\<lambda>e. Names e = []) ?es)"
  define D where "D = filter (\<lambda>p. length (snd p) > 1) (range_order m)"
  define names where "names = map fst D"
  let ?dup = "\<lambda>p. issue_duplicate (fst p) (snd p)"
  have valid: "\<forall>e \<in> set ?es. isValidIP (IP e) \<and> (\<forall>x \<in> set (Names e). isValidHostname x)"
    using Load_valid [OF loaded] .
  obtain w1 where ld: "Load s env w = (Inr hostsFile, w1)"
    using loaded by (cases "Load s env w") simp
  have loop: "entries_loop ?es ([], []) = (inv, m)"
    unfolding m_def inv_def using entries_loop_parsed [OF valid, of "[]" "[]"] by simp
  have res: "fst (Verify s env range_order w) = Inr (inv @ map ?dup D)"
    using ld loop by (simp add: Verify_def duplicates_loop_map D_def)
  have dm: "distinct (map fst m)" unfolding m_def by (rule seen_after_distinct) simp
  have os: "set (range_order m) = set m" and ol: "length (range_order m) = length m"
    using order by blast+
  have dD: "distinct (map fst D)"
  proof -
    have "distinct (map fst (range_order m))"
      using os ol dm by (rule rearranged_distinct_keys)
    then show ?thesis unfolding D_def by (rule distinct_map_filter)
  qed
  have keys: "fst ` set m = (\<Union>e \<in> set ?es. set (Names e))"
    unfolding m_def using seen_after_keys [of ?es "[]"] by simp
  have look: "lookup m k = owners ?es k" for k
    unfolding m_def using seen_after_lookup [of ?es "[]" k] by (simp add: lookup_def)
  have inD_iff: "p \<in> set D \<longleftrightarrow> p \<in> set m \<and> 1 < length (snd p)" for p
    unfolding D_def using os by simp
  have in_m: "snd p = owners ?es (fst p)" if "p \<in> set m" for p
  proof -
    have "(fst p, snd p) \<in> set m" using that by simp
    then have "map_of m (fst p) = Some (snd p)" using dm by simp
    then have "lookup m (fst p) = snd p" by (simp add: lookup_def)
    then show ?thesis using look by simp
  qed
  have dups: "map ?dup D = map ?text names"
  proof -
    have "map ?dup D = map (\<lambda>p. ?text (fst p)) D"
    proof (rule map_cong [OF refl])
      fix p
      assume "p \<in> set D"
      then have "snd p = owners ?es (fst p)" using inD_iff in_m by blast
      then show "?dup p = ?text (fst p)" by (simp add: issue_duplicate_def)
    qed
    then show ?thesis by (simp add: names_def o_def)
  qed
  have dn: "distinct names" using dD by (simp add: names_def)
  have sn: "set names = {name. 2 \<le> length (owners ?es name)}"
  proof (intro set_eqI iffI)
    fix k
    assume "k \<in> set names"
    then obtain p where p: "p \<in> set D" "fst p = k" by (auto simp: names_def)
    then have "1 < length (snd p)" "snd p = owners ?es k" using inD_iff in_m by blast+
    then show "k \<in> {name. 2 \<le> length (owners ?es name)}" by simp
  next
    fix k
    assume "k \<in> {name. 2 \<le> length (owners ?es name)}"
    then have two: "2 \<le> length (owners ?es k)" by simp
    then have "owners ?es k \<noteq> []" by auto
    then have "k \<in> (\<Union>e \<in> set ?es. set (Names e))" using owners_nonempty by fastforce
    then have "k \<in> fst ` set m" by (simp only: keys)
    then obtain p where p: "p \<in> set m" "fst p = k" by auto
    then have "snd p = owners ?es k" using in_m by blast
    then have "p \<in> set D" using p(1) two inD_iff by simp
    then show "k \<in> set names" using p(2) by (auto simp: names_def)
  qed
  have claim: "name \<in> set names
       \<and> (\<forall>e \<in> set ?es. name \<in> set (Names e) \<longrightarrow> ID e \<in> set (owners ?es name))"
    if "2 \<le> length (filter (\<lambda>e. name \<in> set (Names e)) ?es)" for name
  proof
    have "2 \<le> length (owners ?es name)" using that owners_length [of name ?es] by simp
    then show "name \<in> set names" using sn by simp
    show "\<forall>e \<in> set ?es. name \<in> set (Names e) \<longrightarrow> ID e \<in> set (owners ?es name)"
      using owners_member by blast
  qed
  have "fst (Verify s env range_order w) = Inr (inv @ map ?text names)"
    using res dups by simp
  then show ?thesis unfolding inv_def using dn sn claim Verify_files by blast
qed

lemma dup_sample_match:
  "FindStringSubmatch entryRegex 4 (asc ''127.0.0.1 a'')
     = Some [asc ''127.0.0.1 a'', [], asc ''127.0.0.1'', asc ''a'', []]"
  by (simp add: regex_eval asc_def)

lemma dup_sample_valid:
  "isValidIP [49, 50, 55, 46, 48, 46, 48, 46, 49]" "isValidHostname [97]"
  by (simp_all add: regex_eval parser_eval)

lemma dup_sample_scan:
  "ScanLines (asc ''127.0.0.1 a'' @ 10 # asc ''127.0.0.1 a'')
     = [Line (asc ''127.0.0.1 a''), Line (asc ''127.0.0.1 a'')]"
  by (simp add: ScanLines_def asc_def blen_def rune_len_def MaxScanTokenSize_def dropCR_def)

lemma dup_sample_step:
  "parse_step strict (asc ''127.0.0.1 a'') ln eid
     = Append \<lparr>ID = eid, IP = asc ''127.0.0.1'', Names = [asc ''a''], Comment = [],
               Disabled = False, Raw = asc ''127.0.0.1 a''\<rparr>"
  using dup_sample_match dup_sample_valid by (simp add: step_eval asc_def)

lemma dup_sample_parse:
  "Parse strict (asc ''127.0.0.1 a'' @ 10 # asc ''127.0.0.1 a'')
     = Inr \<lparr>Entries = [\<lparr>ID = 1, IP = asc ''127.0.0.1'', Names = [asc ''a''], Comment = [],
                         Disabled = False, Raw = asc ''127.0.0.1 a''\<rparr>,
                       \<lparr>ID = 2, IP = asc ''127.0.0.1'', Names = [asc ''a''], Comment = [],
                         Disabled = False, Raw = asc ''127.0.0.1 a''\<rparr>], Path = []\<rparr>"
  unfolding Parse_def dup_sample_scan by (simp add: dup_sample_step)

text \<open>
  The document of two lines \<open>127.0.0.1 a\<close> yields the single issue
  \<open>duplicate hostname 'a' found in entries: [1 2]\<close>.
\<close>

theorem Verify_reports_each_duplicate_once_witness:
  "(let s = NewStore [104] True;
        env = \<lparr>euid = 1000, now = [], fails = (\<lambda>c. False), partial = 0\<rparr>;
        w = \<lparr>files = [[104] \<mapsto> asc ''127.0.0.1 a'' @ 10 # asc ''127.0.0.1 a''], trace = []\<rparr>
    in fst (Verify s env (\<lambda>m. m) w)
         = Inr [asc ''duplicate hostname '' @ [39] @ asc ''a'' @ [39] @ asc '' found in entries: [1 2]'']
       \<and> files (snd (Verify s env (\<lambda>m. m) w)) = files w)"
proof -
  let ?s = "NewStore [104] True"
  let ?env = "\<lparr>euid = 1000, now = [], fails = (\<lambda>c. False), partial = 0\<rparr>"
  let ?w = "\<lparr>files = [[104] \<mapsto> asc ''127.0.0.1 a'' @ 10 # asc ''127.0.0.1 a''], trace = []\<rparr>"
  let ?e = "\<lambda>n. \<lparr>ID = n, IP = asc ''127.0.0.1'', Names = [asc ''a''], Comment = [],
                         Disabled = False, Raw = asc ''127.0.0.1 a''\<rparr>"
  let ?hf = "\<lparr>Entries = [?e 1, ?e 2], Path = [104]\<rparr>"
  have loaded: "fst (Load ?s ?env ?w) = Inr ?hf"
    by (simp add: Load_def NewStore_def called_def Let_def dup_sample_parse)
  have order: "\<forall>m :: seen. set ((\<lambda>m. m) m) = set m \<and> length ((\<lambda>m. m) m) = length m"
    by simp
  have own: "owners [?e 1, ?e 2] name = (if name = asc ''a'' then [1, 2] else [])" for name
    by (simp add: owners_def)
  have one: "itoa 1 = [49]" and two: "itoa 2 = [50]"
    by (simp_all add: itoa_def dec_nat.simps)
  from Verify_reports_each_duplicate_once [OF loaded order] obtain names where
    res: "fst (Verify ?s ?env (\<lambda>m. m) ?w)
            = Inr (map (\<lambda>e. issue_invalid_entry (ID e)) (filter (\<lambda>e. Names e = []) (Entries ?hf))
                   @ map (\<lambda>name. asc ''duplicate hostname '' @ [39] @ name @ [39]
                              @ asc '' found in entries: '' @ [91]
                              @ Join (map (\<lambda>n. itoa (sint n)) (owners (Entries ?hf) name)) [32]
                              @ [93]) names)"
    and dn: "distinct names"
    and sn: "set names = {name. 2 \<le> length (owners (Entries ?hf) name)}"
    and unchanged: "files (snd (Verify ?s ?env (\<lambda>m. m) ?w)) = files ?w"
    by blast
  have "set names = {asc ''a''}" unfolding sn by (auto simp: own)
  then have "names = [asc ''a'']" using dn by (rule distinct_singleton_set [rotated])
  then have "fst (Verify ?s ?env (\<lambda>m. m) ?w)
         = Inr [asc ''duplicate hostname '' @ [39] @ asc ''a'' @ [39] @ asc '' found in entries: [1 2]'']"
    unfolding res by (simp add: own one two) (simp add: asc_def)
  then show ?thesis unfolding Let_def using unchanged by blast
qed


section \<open>First matches of a pattern\<close>

lemma concat_map_skip:
  assumes "\<forall>x \<in> set xs1. f x = []" "f x = y # ys"
  shows "\<exists>zs. concat (map f (xs1 @ x # xs2)) = y # zs"
  using assms by (induction xs1) auto

lemma Seq_starts_skip:
  assumes r1: "\<And>b. \<exists>zs. ms r1 b s = xs1 @ m1 # zs"
    and skip: "\<forall>x \<in> set xs1. fails r2 (snd x)"
    and r2: "starts r2 (snd m1) m2"
  shows "starts (Seq r1 r2) s (fst m2 @ fst m1, snd m2)"
  unfolding starts_def
proof
  fix b
  from r1 [of b] obtain zs where zs: "ms r1 b s = xs1 @ m1 # zs" by blast
  let ?f = "\<lambda>m1. map (\<lambda>m2. (fst m2 @ fst m1, snd m2)) (ms r2 (b \<and> length (snd m1) = length s) (snd m1))"
  have a: "\<forall>x \<in> set xs1. ?f x = []" using skip by (simp add: fails_def)
  from r2 obtain ys where "ms r2 (b \<and> length (snd m1) = length s) (snd m1) = m2 # ys"
    unfolding starts_def by blast
  then have b: "?f m1 = (fst m2 @ fst m1, snd m2) # map (\<lambda>m2. (fst m2 @ fst m1, snd m2)) ys" by simp
  from concat_map_skip [of xs1 ?f, OF a b, of zs]
  show "\<exists>zs. ms (Seq r1 r2) b s = (fst m2 @ fst m1, snd m2) # zs"
    by (simp add: zs)
qed

lemma Seq_starts:
  assumes "starts r1 s m1" "starts r2 (snd m1) m2"
  shows "starts (Seq r1 r2) s (fst m2 @ fst m1, snd m2)"
proof (rule Seq_starts_skip [where ?xs1.0 = "[]"])
  show "\<exists>zs. ms r1 b s = [] @ m1 # zs" for b using assms(1) by (simp add: starts_def)
  show "\<forall>x \<in> set []. fails r2 (snd x)" by simp
  show "starts r2 (snd m1) m2" by (rule assms(2))
qed

lemma Seq_fails_first: "fails r1 s \<Longrightarrow> fails (Seq r1 r2) s"
  by (simp add: fails_def)

lemma Seq_fails_each:
  assumes "\<And>b x. x \<in> set (ms r1 b s) \<Longrightarrow> fails r2 (snd x)"
  shows "fails (Seq r1 r2) s"
  unfolding fails_def
proof
  fix b
  have "\<forall>x \<in> set (ms r1 b s). ms r2 (b \<and> length (snd x) = length s) (snd x) = []"
    using assms by (simp add: fails_def)
  then show "ms (Seq r1 r2) b s = []" by simp
qed

lemma Opt_starts: "starts r s m \<Longrightarrow> starts (Opt r) s m"
  by (auto simp: starts_def) (metis append_Cons)

lemma Opt_fails: "fails r s \<Longrightarrow> starts (Opt r) s ([], s)"
  by (simp add: starts_def fails_def)

lemma Opt_fails_all: "fails r s \<Longrightarrow> ms (Opt r) b s = [([], s)]"
  by (simp add: fails_def)

lemma Group_starts:
  assumes "starts r s m"
  shows "starts (Group n r) s ((n, take (length s - length (snd m)) s) # fst m, snd m)"
  unfolding starts_def
proof
  fix b
  from assms obtain zs where "ms r b s = m # zs" unfolding starts_def by blast
  then show "\<exists>zs. ms (Group n r) b s = ((n, take (length s - length (snd m)) s) # fst m, snd m) # zs"
    by simp
qed

lemma Class_starts: "p c \<Longrightarrow> starts (Class p) (c # cs) ([], cs)"
  by (simp add: starts_def)

lemma Class_fails: "\<not> p c \<Longrightarrow> fails (Class p) (c # cs)"
  by (simp add: fails_def)

lemma Class_fails_Nil: "fails (Class p) []"
  by (simp add: fails_def)

lemma Eol_starts: "starts Eol [] ([], [])"
  by (simp add: starts_def)

lemma Eol_fails: "s \<noteq> [] \<Longrightarrow> fails Eol s"
  by (simp add: fails_def)

lemma Star_Class_Cons:
  "ms (Star (Class p)) b (c # cs)
     = (if p c then ms (Star (Class p)) False cs @ [([], c # cs)] else [([], c # cs)])"
  by (simp add: ms.simps(8) [of "Class p" b "c # cs"])

lemma Star_Class_Nil: "ms (Star (Class p)) b [] = [([], [])]"
  by (simp add: ms.simps(8) [of "Class p" b "[]"])

lemma LazyStar_Class_Cons:
  "ms (LazyStar (Class p)) b (c # cs)
     = ([], c # cs) # (if p c then ms (LazyStar (Class p)) False cs else [])"
  by (simp add: ms.simps(9) [of "Class p" b "c # cs"])

lemma LazyStar_Class_Nil: "ms (LazyStar (Class p)) b [] = [([], [])]"
  by (simp add: ms.simps(9) [of "Class p" b "[]"])

lemma Star_Class_results:
  "x \<in> set (ms (Star (Class p)) b s) \<Longrightarrow> \<exists>k. k \<le> length (takeWhile p s) \<and> x = ([], drop k s)"
proof (induction s arbitrary: b)
  case Nil
  then show ?case by (simp add: Star_Class_Nil)
next
  case (Cons c cs)
  show ?case
  proof (cases "p c \<and> x \<in> set (ms (Star (Class p)) False cs)")
    case True
    from Cons.IH [OF True [THEN conjunct2]] obtain k where
      "k \<le> length (takeWhile p cs)" "x = ([], drop k cs)" by blast
    then have "Suc k \<le> length (takeWhile p (c # cs)) \<and> x = ([], drop (Suc k) (c # cs))"
      using True by simp
    then show ?thesis by blast
  next
    case False
    then have "x = ([], c # cs)" using Cons.prems by (auto simp: Star_Class_Cons split: if_splits)
    then have "0 \<le> length (takeWhile p (c # cs)) \<and> x = ([], drop 0 (c # cs))" by simp
    then show ?thesis by blast
  qed
qed

lemma Star_Class_starts:
  assumes "\<forall>c \<in> set u. p c" "v = [] \<or> \<not> p (hd v)"
  shows "starts (Star (Class p)) (u @ v) ([], v)"
  unfolding starts_def using assms
proof (induction u)
  case Nil
  show ?case
  proof (cases v)
    case Nil
    then show ?thesis by (simp add: Star_Class_Nil)
  next
    case (Cons c cs)
    then show ?thesis using Nil.prems by (simp add: Star_Class_Cons)
  qed
next
  case (Cons c u)
  then have "\<forall>b. \<exists>zs. ms (Star (Class p)) b (u @ v) = ([], v) # zs" by simp
  then obtain zs where "ms (Star (Class p)) False (u @ v) = ([], v) # zs" by blast
  then show ?case using Cons.prems by (simp add: Star_Class_Cons)
qed

lemma LazyStar_Class_all:
  assumes "\<forall>c \<in> set s. p c"
  shows "ms (LazyStar (Class p)) b s = map (\<lambda>k. ([], drop k s)) [0..<Suc (length s)]"
  using assms
proof (induction s arbitrary: b)
  case Nil
  show ?case by (simp add: LazyStar_Class_Nil)
next
  case (Cons c cs)
  have "[0..<Suc (length (c # cs))] = 0 # map Suc [0..<Suc (length cs)]"
    by (simp add: upt_conv_Cons map_Suc_upt del: upt_Suc)
  then have rhs: "map (\<lambda>k. ([], drop k (c # cs))) [0..<Suc (length (c # cs))]
      = ([], c # cs) # map (\<lambda>k. ([], drop k cs)) [0..<Suc (length cs)]"
    by (simp add: o_def del: upt_Suc)
  have "ms (LazyStar (Class p)) b (c # cs) = ([], c # cs) # ms (LazyStar (Class p)) False cs"
    using Cons.prems by (simp add: LazyStar_Class_Cons)
  also have "ms (LazyStar (Class p)) False cs = map (\<lambda>k. ([], drop k cs)) [0..<Suc (length cs)]"
    using Cons.prems by (intro Cons.IH) simp
  finally show ?case by (simp only: rhs)
qed


section \<open>The entry pattern on the line of an entry\<close>

lemma entryRegex_parts:
  "entryRegex =
     Seq Bol (Seq (Opt re_prefix) (Seq (Group 2 (Plus re_S)) (Seq (Plus re_s)
       (Seq (Group 3 (LazyPlus re_dot)) re_tail))))"
  by (simp add: entryRegex_def re_prefix_def re_tail_def re_comment_def)

lemma Class_fails_at: "s = [] \<or> \<not> p (hd s) \<Longrightarrow> fails (Class p) s"
  by (cases s) (auto simp: fails_def)

lemma drop_takeWhile_cases:
  assumes "k \<le> length (takeWhile P t)"
  shows "drop k t = dropWhile P t \<or> (drop k t \<noteq> [] \<and> P (hd (drop k t)))"
  using assms
proof (induction t arbitrary: k)
  case Nil
  then show ?case by simp
next
  case (Cons c t)
  show ?case
  proof (cases k)
    case 0
    then show ?thesis by (cases "P c") auto
  next
    case (Suc j)
    then have pc: "P c" and "j \<le> length (takeWhile P t)"
      using Cons.prems by (auto split: if_splits)
    from Cons.IH [OF this(2)] show ?thesis using Suc pc by simp
  qed
qed

lemma re_comment_fails:
  assumes "dropWhile is_s t = [] \<or> hd (dropWhile is_s t) \<noteq> 35"
  shows "fails re_comment t"
  unfolding re_comment_def re_s_def
proof (rule Seq_fails_each)
  fix b x
  assume "x \<in> set (ms (Star (Class is_s)) b t)"
  from Star_Class_results [OF this] obtain k where k: "k \<le> length (takeWhile is_s t)"
    and x: "x = ([], drop k t)" by blast
  have "drop k t = [] \<or> hd (drop k t) \<noteq> 35"
  proof (cases "drop k t = dropWhile is_s t")
    case True
    then show ?thesis using assms by simp
  next
    case False
    then have "is_s (hd (drop k t))" using drop_takeWhile_cases [OF k] by blast
    then have "hd (drop k t) \<noteq> 35" by (auto simp: is_s_def)
    then show ?thesis by simp
  qed
  then have "fails (re_chr 35) (snd x)"
    unfolding re_chr_def x by (intro Class_fails_at) auto
  then show "fails (Seq (re_chr 35) (Seq (Star (Class is_s)) (Group 4 (Star re_dot)))) (snd x)"
    by (rule Seq_fails_first)
qed

lemma re_tail_Nil: "starts re_tail [] ([], [])"
proof -
  have "fails re_comment []" by (rule re_comment_fails) simp
  then have "starts (Opt re_comment) [] ([], [])" by (rule Opt_fails)
  from Seq_starts [OF this, of Eol "([], [])"] show ?thesis
    by (simp add: re_tail_def Eol_starts)
qed

lemma re_tail_fails:
  assumes "t \<noteq> []" "dropWhile is_s t = [] \<or> hd (dropWhile is_s t) \<noteq> 35"
  shows "fails re_tail t"
  unfolding re_tail_def
proof (rule Seq_fails_each)
  fix b x
  assume x: "x \<in> set (ms (Opt re_comment) b t)"
  have "ms (Opt re_comment) b t = [([], t)]"
    using re_comment_fails [OF assms(2)] by (rule Opt_fails_all)
  then have "snd x = t" using x by simp
  then show "fails Eol (snd x)" using assms(1) by (simp add: Eol_fails)
qed

lemma re_tail_comment:
  assumes "\<forall>c \<in> set u1. is_s c" "\<forall>c \<in> set u2. is_s c"
    and "c = [] \<or> \<not> is_s (hd c)" "10 \<notin> set c"
  shows "starts re_tail (u1 @ 35 # u2 @ c) ([(4, c)], [])"
proof -
  have a: "starts (Star re_s) (u1 @ 35 # u2 @ c) ([], 35 # u2 @ c)"
    unfolding re_s_def using assms(1) by (intro Star_Class_starts) (auto simp: is_s_def)
  have b: "starts (re_chr 35) (35 # u2 @ c) ([], u2 @ c)"
    unfolding re_chr_def by (rule Class_starts) simp
  have c: "starts (Star re_s) (u2 @ c) ([], c)"
    unfolding re_s_def using assms(2,3) by (intro Star_Class_starts) auto
  have "starts (Star re_dot) (c @ []) ([], [])"
    unfolding re_dot_def using assms(4) by (intro Star_Class_starts) auto
  then have "starts (Star re_dot) c ([], [])" by simp
  from Group_starts [OF this, of 4]
  have d: "starts (Group 4 (Star re_dot)) c ([(4, c)], [])" by simp
  from Seq_starts [of "Star re_s" "u2 @ c" "([], c)", OF c] d
  have "starts (Seq (Star re_s) (Group 4 (Star re_dot))) (u2 @ c) ([(4, c)], [])" by simp
  with Seq_starts [of "re_chr 35" "35 # u2 @ c" "([], u2 @ c)", OF b]
  have "starts (Seq (re_chr 35) (Seq (Star re_s) (Group 4 (Star re_dot)))) (35 # u2 @ c) ([(4, c)], [])"
    by fastforce
  with Seq_starts [of "Star re_s" "u1 @ 35 # u2 @ c" "([], 35 # u2 @ c)", OF a]
  have "starts re_comment (u1 @ 35 # u2 @ c) ([(4, c)], [])"
    unfolding re_comment_def by fastforce
  then have "starts (Opt re_comment) (u1 @ 35 # u2 @ c) ([(4, c)], [])" by (rule Opt_starts)
  from Seq_starts [OF this, of Eol "([], [])"] show ?thesis
    by (simp add: re_tail_def Eol_starts)
qed

lemma Group3_lazy_all:
  assumes "10 \<notin> set s" "s \<noteq> []"
  shows "ms (Group 3 (LazyPlus re_dot)) b s
     = map (\<lambda>k. ([(3, take (Suc k) s)], drop (Suc k) s)) [0..<length s]"
proof -
  obtain c0 s' where s: "s = c0 # s'" using assms(2) by (cases s) auto
  have c0: "c0 \<noteq> 10" and s': "\<forall>c \<in> set s'. c \<noteq> 10" using assms(1) s by auto
  have lazy: "ms (LazyStar re_dot) False s' = map (\<lambda>k. ([], drop k s')) [0..<Suc (length s')]"
    unfolding re_dot_def using s' by (intro LazyStar_Class_all) simp
  have "ms (LazyPlus re_dot) b s = map (\<lambda>k. ([], drop k s')) [0..<Suc (length s')]"
    using c0 lazy by (simp add: LazyPlus_def s re_dot_def o_def del: upt_Suc)
  then have "ms (Group 3 (LazyPlus re_dot)) b s
      = map (\<lambda>k. ([(3, take (length s - length (drop k s')) s)], drop k s')) [0..<Suc (length s')]"
    by (simp add: o_def del: upt_Suc)
  also have "\<dots> = map (\<lambda>k. ([(3, take (Suc k) s)], drop (Suc k) s)) [0..<Suc (length s')]"
    by (rule map_cong) (auto simp: s)
  finally show ?thesis by (simp add: s del: upt_Suc)
qed

lemma names_part_starts:
  assumes nl: "10 \<notin> set (u @ cmt)" and ne: "u \<noteq> []"
    and skip: "\<And>k. 0 < k \<Longrightarrow> k < length u \<Longrightarrow> fails re_tail (drop k u @ cmt)"
    and tail: "starts re_tail cmt mt"
  shows "starts (Seq (Group 3 (LazyPlus re_dot)) re_tail) (u @ cmt) (fst mt @ [(3, u)], snd mt)"
proof -
  let ?s = "u @ cmt"
  let ?g = "\<lambda>k. ([(3, take (Suc k) ?s)], drop (Suc k) ?s)"
  obtain j where j: "length u = Suc j" using ne by (cases u) auto
  have split: "[0..<length ?s] = [0..<j] @ j # [Suc j..<length ?s]"
  proof -
    have "j < length ?s" using j by simp
    then have "[0..<length ?s] = [0..<j] @ [j..<length ?s]"
      using upt_add_eq_append [of 0 j "length ?s - j"] by simp
    also have "[j..<length ?s] = j # [Suc j..<length ?s]"
      using \<open>j < length ?s\<close> by (rule upt_conv_Cons)
    finally show ?thesis .
  qed
  have all: "ms (Group 3 (LazyPlus re_dot)) b ?s
      = map ?g [0..<j] @ ?g j # map ?g [Suc j..<length ?s]" for b
    using Group3_lazy_all [OF nl, of b] ne by (simp only: split map_append list.map) simp
  have gj: "?g j = ([(3, u)], cmt)" using j by simp
  have r1: "\<exists>zs. ms (Group 3 (LazyPlus re_dot)) b ?s = map ?g [0..<j] @ ([(3, u)], cmt) # zs" for b
    using all [of b] gj by simp
  have sk: "\<forall>x \<in> set (map ?g [0..<j]). fails re_tail (snd x)"
    using skip j by simp
  have tl: "starts re_tail (snd ([(3, u)], cmt)) mt" using tail by simp
  from Seq_starts_skip [of "Group 3 (LazyPlus re_dot)" ?s "map ?g [0..<j]" "([(3, u)], cmt)" re_tail mt,
      OF r1 sk tl]
  show ?thesis by simp
qed

lemma Group_fails: "fails r s \<Longrightarrow> fails (Group n r) s"
  by (simp add: fails_def)

lemma hash_after_spaces_fails:
  assumes "dropWhile is_s t = [] \<or> hd (dropWhile is_s t) \<noteq> 35"
  shows "fails (Seq (Star re_s) (Seq (re_chr 35) r)) t"
  unfolding re_s_def
proof (rule Seq_fails_each)
  fix b x
  assume "x \<in> set (ms (Star (Class is_s)) b t)"
  from Star_Class_results [OF this] obtain k where k: "k \<le> length (takeWhile is_s t)"
    and x: "x = ([], drop k t)" by blast
  have "drop k t = [] \<or> hd (drop k t) \<noteq> 35"
  proof (cases "drop k t = dropWhile is_s t")
    case True
    then show ?thesis using assms by simp
  next
    case False
    then have "is_s (hd (drop k t))" using drop_takeWhile_cases [OF k] by blast
    then have "hd (drop k t) \<noteq> 35" by (auto simp: is_s_def)
    then show ?thesis by simp
  qed
  then have "fails (re_chr 35) (snd x)"
    unfolding re_chr_def x by (intro Class_fails_at) auto
  then show "fails (Seq (re_chr 35) r) (snd x)"
    by (rule Seq_fails_first)
qed

lemma Plus_Class_starts:
  assumes "u \<noteq> []" "\<forall>c \<in> set u. p c" "v = [] \<or> \<not> p (hd v)"
  shows "starts (Plus (Class p)) (u @ v) ([], v)"
proof -
  obtain c u' where u: "u = c # u'" using assms(1) by (cases u) auto
  have a: "starts (Class p) (c # u' @ v) ([], u' @ v)" using assms(2) u by (intro Class_starts) simp
  have b: "starts (Star (Class p)) (u' @ v) ([], v)"
    using assms(2,3) u by (intro Star_Class_starts) auto
  from Seq_starts [of "Class p" "c # u' @ v" "([], u' @ v)" "Star (Class p)" "([], v)"] a b
  show ?thesis by (simp add: Plus_def u)
qed

lemma entry_line_match:
  assumes ip: "ip \<noteq> []" "\<forall>c \<in> set ip. \<not> is_s c \<and> c \<noteq> 35"
    and sp: "sp \<noteq> []" "\<forall>c \<in> set sp. is_s c"
    and u: "u \<noteq> []" "\<not> is_s (hd u)"
    and nl: "10 \<notin> set (u @ cmt)"
    and skip: "\<And>k. 0 < k \<Longrightarrow> k < length u \<Longrightarrow> fails re_tail (drop k u @ cmt)"
    and tail: "starts re_tail cmt (c4, [])"
    and pre: "(pre = [] \<and> g1 = []) \<or> (pre = [35, 32] \<and> g1 = [(1, [35, 32])])"
  shows "\<exists>zs. ms entryRegex True (pre @ ip @ sp @ u @ cmt) = (c4 @ [(3, u), (2, ip)] @ g1, []) # zs"
proof -
  let ?rest = "u @ cmt"
  let ?R4 = "Seq (Group 3 (LazyPlus re_dot)) re_tail"
  let ?R3 = "Seq (Plus re_s) ?R4"
  let ?R2 = "Seq (Group 2 (Plus re_S)) ?R3"
  let ?R1 = "Seq (Opt re_prefix) ?R2"
  have r4: "starts ?R4 ?rest (c4 @ [(3, u)], [])"
    using names_part_starts [OF nl u(1) skip tail] by simp
  have "starts (Plus re_s) (sp @ ?rest) ([], ?rest)"
    unfolding re_s_def using sp u by (intro Plus_Class_starts) auto
  from Seq_starts [OF this, of ?R4 "(c4 @ [(3, u)], [])"] r4
  have r3: "starts ?R3 (sp @ ?rest) (c4 @ [(3, u)], [])" by simp
  have "starts (Plus re_S) (ip @ (sp @ ?rest)) ([], sp @ ?rest)"
    unfolding re_S_def using ip sp by (intro Plus_Class_starts) (auto simp: hd_append)
  from Group_starts [OF this, of 2]
  have "starts (Group 2 (Plus re_S)) (ip @ sp @ ?rest) ([(2, ip)], sp @ ?rest)" by simp
  from Seq_starts [OF this, of ?R3 "(c4 @ [(3, u)], [])"] r3
  have r2: "starts ?R2 (ip @ sp @ ?rest) (c4 @ [(3, u), (2, ip)], [])" by simp
  have r1: "starts ?R1 (pre @ ip @ sp @ ?rest) (c4 @ [(3, u), (2, ip)] @ g1, [])"
  proof (cases "pre = []")
    case True
    then have g1: "g1 = []" using pre by auto
    obtain i0 ip' where i0: "ip = i0 # ip'" using ip(1) by (cases ip) auto
    have "fails (Seq (Star re_s) (Seq (re_chr 35) (Star re_s))) (ip @ sp @ ?rest)"
      using ip(2) i0 by (intro hash_after_spaces_fails) simp
    then have "fails re_prefix (ip @ sp @ ?rest)"
      unfolding re_prefix_def by (rule Group_fails)
    then have "starts (Opt re_prefix) (ip @ sp @ ?rest) ([], ip @ sp @ ?rest)" by (rule Opt_fails)
    from Seq_starts [OF this, of ?R2 "(c4 @ [(3, u), (2, ip)], [])"] r2
    show ?thesis by (simp add: True g1)
  next
    case False
    then have p: "pre = [35, 32]" and g1: "g1 = [(1, [35, 32])]" using pre by auto
    let ?l = "ip @ sp @ ?rest"
    obtain i0 ip' where i0: "ip = i0 # ip'" using ip(1) by (cases ip) auto
    have a: "starts (Star re_s) ([] @ 35 # 32 # ?l) ([], 35 # 32 # ?l)"
      unfolding re_s_def by (intro Star_Class_starts) (auto simp: is_s_def)
    have b: "starts (re_chr 35) (35 # 32 # ?l) ([], 32 # ?l)"
      unfolding re_chr_def by (rule Class_starts) simp
    have c: "starts (Star re_s) ([32] @ ?l) ([], ?l)"
      unfolding re_s_def using ip(2) i0 by (intro Star_Class_starts) (auto simp: is_s_def)
    from Seq_starts [of "re_chr 35" "35 # 32 # ?l" "([], 32 # ?l)" "Star re_s" "([], ?l)"] b c
    have "starts (Seq (re_chr 35) (Star re_s)) (35 # 32 # ?l) ([], ?l)" by simp
    with Seq_starts [of "Star re_s" "35 # 32 # ?l" "([], 35 # 32 # ?l)" "Seq (re_chr 35) (Star re_s)" "([], ?l)"] a
    have "starts (Seq (Star re_s) (Seq (re_chr 35) (Star re_s))) (35 # 32 # ?l) ([], ?l)" by simp
    from Group_starts [OF this, of 1]
    have "starts re_prefix (35 # 32 # ?l) ([(1, [35, 32])], ?l)" by (simp add: re_prefix_def)
    then have "starts (Opt re_prefix) (35 # 32 # ?l) ([(1, [35, 32])], ?l)" by (rule Opt_starts)
    from Seq_starts [OF this, of ?R2 "(c4 @ [(3, u), (2, ip)], [])"] r2
    show ?thesis by (simp add: p g1)
  qed
  then obtain zs where "ms ?R1 True (pre @ ip @ sp @ ?rest) = (c4 @ [(3, u), (2, ip)] @ g1, []) # zs"
    unfolding starts_def by blast
  then show ?thesis by (simp add: entryRegex_parts)
qed

lemma FindStringSubmatch_entry:
  assumes "\<exists>zs. ms entryRegex True line = (c4 @ [(3, u), (2, ip)] @ g1, []) # zs"
    and "line \<noteq> []"
    and "(c4 = [] \<and> g4 = []) \<or> c4 = [(4, g4)]"
    and "(g1 = [] \<and> t1 = []) \<or> g1 = [(1, t1)]"
  shows "FindStringSubmatch entryRegex 4 line = Some [line, t1, ip, u, g4]"
proof -
  from assms(1) obtain zs where zs: "ms entryRegex True line = (c4 @ [(3, u), (2, ip)] @ g1, []) # zs"
    by blast
  obtain c cs where l: "line = c # cs" using assms(2) by (cases line) auto
  have "find_from entryRegex True line = Some (line, c4 @ [(3, u), (2, ip)] @ g1)"
    using zs by (simp add: l)
  then show ?thesis using assms(3,4) by (auto simp: FindStringSubmatch_def upt_rec)
qed


section \<open>Trimming and splitting into fields\<close>



lemma TrimSpace_id:
  assumes "s \<noteq> []" "\<not> isSpace (hd s)" "\<not> isSpace (last s)"
  shows "TrimSpace s = s"
proof -
  have a: "dropWhile isSpace s = s" using assms(1,2) by (cases s) auto
  have "rev s \<noteq> []" "\<not> isSpace (hd (rev s))" using assms(1,3) by (simp_all add: hd_rev)
  then have "dropWhile isSpace (rev s) = rev s" by (cases "rev s") auto
  then show ?thesis using a by (simp add: TrimSpace_def)
qed

lemma dropWhile_shorter: "xs \<noteq> [] \<Longrightarrow> P (hd xs) \<Longrightarrow> length (dropWhile P xs) < length xs"
  by (cases xs) (auto simp: less_Suc_eq_le length_dropWhile_le)

lemma TrimSpace_fixed:
  assumes "TrimSpace c = c" "c \<noteq> []"
  shows "\<not> isSpace (hd c)" and "\<not> isSpace (last c)"
proof -
  have len: "length (TrimSpace c) \<le> length (dropWhile isSpace c)"
    unfolding TrimSpace_def using length_dropWhile_le [of isSpace "rev (dropWhile isSpace c)"] by simp
  show h: "\<not> isSpace (hd c)"
  proof
    assume "isSpace (hd c)"
    from dropWhile_shorter [OF assms(2), of isSpace, OF this] len assms(1) show False by simp
  qed
  then have dw: "dropWhile isSpace c = c" using assms(2) by (cases c) auto
  show "\<not> isSpace (last c)"
  proof
    assume "isSpace (last c)"
    then have "isSpace (hd (rev c))" using assms(2) by (simp add: hd_rev)
    moreover have "rev c \<noteq> []" using assms(2) by simp
    ultimately have "length (dropWhile isSpace (rev c)) < length (rev c)"
      by (intro dropWhile_shorter)
    then have "length (TrimSpace c) < length c" by (simp add: TrimSpace_def dw)
    then show False using assms(1) by simp
  qed
qed


lemma fields_from_word:
  assumes "\<forall>c \<in> set n. \<not> isSpace c"
  shows "fields_from cur (n @ rest) = fields_from (cur @ n) rest"
  using assms by (induction n arbitrary: cur) simp_all

lemma Fields_Join:
  assumes "\<forall>n \<in> set ns. n \<noteq> [] \<and> (\<forall>c \<in> set n. \<not> isSpace c)"
  shows "Fields (Join ns [9]) = ns"
  using assms
proof (induction ns "[9::nat]" rule: Join.induct)
  case 1
  show ?case by (simp add: Fields_def)
next
  case (2 x)
  then show ?case using fields_from_word [of x "[]" "[]"] by (simp add: Fields_def)
next
  case (3 x y ys)
  have x: "x \<noteq> []" "\<forall>c \<in> set x. \<not> isSpace c" using "3.prems" by simp_all
  have "Fields (Join (x # y # ys) [9]) = fields_from x (9 # Join (y # ys) [9])"
    using fields_from_word [OF x(2), of "[]" "9 # Join (y # ys) [9]"] by (simp add: Fields_def)
  also have "\<dots> = x # fields_from [] (Join (y # ys) [9])"
    using x(1) by (simp add: isSpace_def)
  also have "fields_from [] (Join (y # ys) [9]) = y # ys"
    using "3.hyps" "3.prems" by (simp add: Fields_def)
  finally show ?case .
qed

lemma concat_tab_names:
  "ns \<noteq> [] \<Longrightarrow> concat (map (\<lambda>name. [9] @ name) ns) = 9 # Join ns [9]"
  by (induction ns "[9::nat]" rule: Join.induct) simp_all

text \<open>The names of an entry joined by tabs.\<close>

lemma Join_names_ends:
  assumes "ns \<noteq> []" "\<forall>n \<in> set ns. n \<noteq> [] \<and> (\<forall>c \<in> set n. P c)"
  shows "Join ns [9] \<noteq> []" and "P (hd (Join ns [9]))" and "P (last (Join ns [9]))"
proof -
  have "Join ns [9] \<noteq> [] \<and> P (hd (Join ns [9])) \<and> P (last (Join ns [9]))"
    using assms
  proof (induction ns "[9::nat]" rule: Join.induct)
    case 1
    then show ?case by simp
  next
    case (2 x)
    then show ?case by (cases x) auto
  next
    case (3 x y ys)
    then have "Join (y # ys) [9] \<noteq> []" "P (last (Join (y # ys) [9]))" by simp_all
    then show ?case using "3.prems" by (cases x) auto
  qed
  then show "Join ns [9] \<noteq> []" and "P (hd (Join ns [9]))" and "P (last (Join ns [9]))"
    by simp_all
qed

lemma Join_names_chars:
  assumes "\<forall>n \<in> set ns. \<forall>c \<in> set n. P c"
  shows "\<forall>c \<in> set (Join ns [9]). P c \<or> c = 9"
  using assms by (induction ns "[9::nat]" rule: Join.induct) auto

lemma Join_names_suffix:
  assumes "\<forall>n \<in> set ns. n \<noteq> [] \<and> (\<forall>c \<in> set n. P c)"
    and "Join ns [9] = p @ t" "t \<noteq> []"
  shows "P (hd t) \<or> (hd t = 9 \<and> tl t \<noteq> [] \<and> P (hd (tl t)))"
  using assms
proof (induction ns "[9::nat]" arbitrary: p rule: Join.induct)
  case 1
  then show ?case by simp
next
  case (2 x)
  then have "hd t \<in> set x" by (metis Join.simps(2) hd_in_set in_set_conv_decomp list.set_intros(1) set_append Un_iff hd_Cons_tl)
  then show ?case using "2.prems" by auto
next
  case (3 x y ys)
  let ?r = "Join (y # ys) [9]"
  have eq: "x @ 9 # ?r = p @ t" using "3.prems"(2) by simp
  have r: "?r \<noteq> []" "P (hd ?r)"
    using Join_names_ends(1,2) [of "y # ys" P] "3.prems"(1) by simp_all
  from eq obtain us where "(x = p @ us \<and> us @ 9 # ?r = t) \<or> (x @ us = p \<and> 9 # ?r = us @ t)"
    by (auto simp: append_eq_append_conv2)
  then show ?case
  proof
    assume a: "x = p @ us \<and> us @ 9 # ?r = t"
    show ?thesis
    proof (cases us)
      case Nil
      then have "t = 9 # ?r" using a by simp
      then show ?thesis using r by simp
    next
      case (Cons c cs)
      then have "hd t = c" "c \<in> set x" using a by auto
      then show ?thesis using "3.prems"(1) by auto
    qed
  next
    assume a: "x @ us = p \<and> 9 # ?r = us @ t"
    show ?thesis
    proof (cases us)
      case Nil
      then have "t = 9 # ?r" using a by simp
      then show ?thesis using r by simp
    next
      case (Cons c cs)
      then have "?r = cs @ t" using a by simp
      from "3.hyps" [OF _ this "3.prems"(3)] "3.prems"(1) show ?thesis by simp
    qed
  qed
qed













section \<open>The shape of a line that yields an entry\<close>





























text \<open>
  A line with an address and no hostname: on \<open>1.2.3.4\<close> followed by two spaces the group of the
  pattern for the hostnames matches one space, and lenient parsing returns an entry without
  names (the strict loop body does the same, compare C4).
\<close>

lemma match_one_token:
  "FindStringSubmatch entryRegex 4 (asc ''1.2.3.4  '')
     = Some [asc ''1.2.3.4  '', [], asc ''1.2.3.4'', asc '' '', []]"
  by (simp add: regex_eval asc_def)

lemma Parse_lenient_nameless_entry:
  "Parse False (asc ''1.2.3.4  '')
     = Inr \<lparr>Entries = [\<lparr>ID = 1, IP = asc ''1.2.3.4'', Names = [], Comment = [], Disabled = False,
                         Raw = asc ''1.2.3.4  ''\<rparr>], Path = []\<rparr>"
proof -
  have scan: "ScanLines (asc ''1.2.3.4  '') = [Line (asc ''1.2.3.4  '')]"
    by (simp add: ScanLines_def asc_def blen_def rune_len_def MaxScanTokenSize_def dropCR_def)
  have step: "parse_step False (asc ''1.2.3.4  '') ln eid
     = Append \<lparr>ID = eid, IP = asc ''1.2.3.4'', Names = [], Comment = [], Disabled = False,
               Raw = asc ''1.2.3.4  ''\<rparr>" for ln eid
    using match_one_token isValidIP_1234 by (simp add: step_eval asc_def)
  show ?thesis unfolding Parse_def scan by (simp add: step)
qed

end
